theory Spec2Isabelle
  imports Complex_Main "HOL-Library.Product_Lexorder" "HOL-Library.Multiset"
begin

unbundle bit_operations_syntax

section \<open>Arrays\<close>

text \<open>
  The program works on \<open>jnp.ndarray\<close> values. An array is modelled by its shape and its
  elements in row-major (C) order, which is the order \<open>flatten\<close> and \<open>reshape\<close> of the
  source read them in. Complex arrays hold mathematical complex numbers: the rounding of
  the floating-point unit in sums and products is not part of this model. Integer arrays
  hold 32-bit signed integers, the default integer type of the array library: an element
  is an integer between \<open>- 2 ^ 31\<close> and \<open>2 ^ 31 - 1\<close> and the arithmetic on elements wraps
  around.
\<close>

record 'a ndarray =
  shape :: "nat list"
  data :: "'a list"

datatype py_error = KeyError | IndexError | TypeError | AxisError | ValueError | OverflowError

definition ebind :: "py_error + 'a \<Rightarrow> ('a \<Rightarrow> py_error + 'b) \<Rightarrow> py_error + 'b" where
  "ebind m f = (case m of Inl e \<Rightarrow> Inl e | Inr x \<Rightarrow> f x)"

text \<open>A list comprehension whose body may raise: the first error ends it.\<close>

fun emap :: "('a \<Rightarrow> py_error + 'b) \<Rightarrow> 'a list \<Rightarrow> py_error + 'b list" where
  "emap f [] = Inr []"
| "emap f (x # xs) = ebind (f x) (\<lambda>y. ebind (emap f xs) (\<lambda>ys. Inr (y # ys)))"

definition ndim :: "'a ndarray \<Rightarrow> nat" where
  "ndim a = length (shape a)"

definition nd_size :: "'a ndarray \<Rightarrow> nat" where
  "nd_size a = prod_list (shape a)"

definition scalar :: "'a \<Rightarrow> 'a ndarray" where
  "scalar x = \<lparr>shape = [], data = [x]\<rparr>"

definition vector :: "'a list \<Rightarrow> 'a ndarray" where
  "vector xs = \<lparr>shape = [length xs], data = xs\<rparr>"

text \<open>All multi-indices of a shape, in row-major order, and the offset of a multi-index.\<close>

fun indices :: "nat list \<Rightarrow> nat list list" where
  "indices [] = [[]]"
| "indices (d # ds) = concat (map (\<lambda>i. map ((#) i) (indices ds)) [0..<d])"

fun ravel :: "nat list \<Rightarrow> nat list \<Rightarrow> nat" where
  "ravel (d # ds) (i # js) = i * prod_list ds + ravel ds js"
| "ravel _ _ = 0"

definition nd_at :: "'a ndarray \<Rightarrow> nat list \<Rightarrow> 'a" where
  "nd_at a idx = data a ! ravel (shape a) idx"

definition build :: "nat list \<Rightarrow> (nat list \<Rightarrow> 'a) \<Rightarrow> 'a ndarray" where
  "build shp f = \<lparr>shape = shp, data = map f (indices shp)\<rparr>"

definition nd_map :: "('a \<Rightarrow> 'b) \<Rightarrow> 'a ndarray \<Rightarrow> 'b ndarray" where
  "nd_map f a = \<lparr>shape = shape a, data = map f (data a)\<rparr>"

text \<open>NumPy broadcasting of two shapes, aligned at the last axis.\<close>

definition broadcast_shapes :: "nat list \<Rightarrow> nat list \<Rightarrow> py_error + nat list" where
  "broadcast_shapes s1 s2 =
     (let n = max (length s1) (length s2);
          p1 = replicate (n - length s1) 1 @ s1;
          p2 = replicate (n - length s2) 1 @ s2
      in if list_all (\<lambda>(a, b). a = b \<or> a = 1 \<or> b = 1) (zip p1 p2)
         then Inr (map (\<lambda>(a, b). if a = 1 then b else a) (zip p1 p2))
         else Inl ValueError)"

definition bc_index :: "nat list \<Rightarrow> nat list \<Rightarrow> nat list" where
  "bc_index shp idx =
     map (\<lambda>(d, i). if d = 1 then 0 else i) (zip shp (drop (length idx - length shp) idx))"

definition broadcast_op ::
  "('a \<Rightarrow> 'b \<Rightarrow> 'c) \<Rightarrow> 'a ndarray \<Rightarrow> 'b ndarray \<Rightarrow> py_error + 'c ndarray" where
  "broadcast_op f a b =
     ebind (broadcast_shapes (shape a) (shape b)) (\<lambda>s.
       Inr (build s (\<lambda>idx. f (nd_at a (bc_index (shape a) idx)) (nd_at b (bc_index (shape b) idx)))))"

definition atleast_1d :: "'a ndarray \<Rightarrow> 'a ndarray" where
  "atleast_1d a = (if shape a = [] then a\<lparr>shape := [1]\<rparr> else a)"

definition atleast_2d :: "'a ndarray \<Rightarrow> 'a ndarray" where
  "atleast_2d a =
     (case shape a of
        [] \<Rightarrow> a\<lparr>shape := [1, 1]\<rparr>
      | [n] \<Rightarrow> a\<lparr>shape := [1, n]\<rparr>
      | _ \<Rightarrow> a)"

definition squeeze :: "'a ndarray \<Rightarrow> 'a ndarray" where
  "squeeze a = a\<lparr>shape := filter (\<lambda>d. d \<noteq> 1) (shape a)\<rparr>"

text \<open>\<open>a[:, None]\<close> on an array of rank at least one: a new axis of length one after the first.\<close>

definition new_axis1 :: "'a ndarray \<Rightarrow> 'a ndarray" where
  "new_axis1 a = a\<lparr>shape := hd (shape a) # 1 # tl (shape a)\<rparr>"

text \<open>\<open>jnp.arange(n - 1, -1, -1)\<close>: the integers \<open>n - 1, ..., 0\<close>, none when \<open>n \<le> 0\<close>.\<close>

definition arange_down :: "int \<Rightarrow> int ndarray" where
  "arange_down n = vector (map (\<lambda>j. n - 1 - int j) [0..<nat n])"

section \<open>32-bit integer arrays\<close>

text \<open>
  A Python integer becomes an array element when \<open>jnp.atleast_1d\<close> or \<open>jnp.atleast_2d\<close>
  turns the argument into an array; an integer outside the 32-bit range is refused there
  with an \<open>OverflowError\<close>. Shifts, powers, products and sums of elements wrap around;
  a shift by the width or more gives \<open>0\<close>.
\<close>

definition int32_range :: "int \<Rightarrow> bool" where
  "int32_range x = (- (2 ^ 31) \<le> x \<and> x < 2 ^ 31)"

definition wrap32 :: "int \<Rightarrow> int" where
  "wrap32 x = signed_take_bit 31 x"

definition as_int32_array :: "int ndarray \<Rightarrow> py_error + int ndarray" where
  "as_int32_array a = (if list_all int32_range (data a) then Inr a else Inl OverflowError)"

definition shift_left32 :: "int \<Rightarrow> int \<Rightarrow> int" where
  "shift_left32 x e = (if 0 \<le> e \<and> e < 32 then wrap32 (push_bit (nat e) x) else 0)"

definition power32 :: "int \<Rightarrow> int \<Rightarrow> int" where
  "power32 x e = wrap32 (x ^ nat e)"

section \<open>Bitstring and integer codec\<close>

text \<open>
  The width inferred when \<open>nbits\<close> is omitted (line 116) is computed in floating point:
  \<open>ceil(log2(integers.max()) + 1e-5).astype(int)\<close>. A float is a real number, an
  infinity or not-a-number; the logarithm of \<open>0\<close> is minus infinity and that of a negative
  number is not-a-number. The conversion to an integer saturates: minus infinity becomes
  the least 32-bit integer, not-a-number becomes \<open>0\<close>. \<open>max\<close> of an empty array raises.
\<close>

datatype fval = NegInf | Finite real | PosInf | NaN

definition log2_f :: "int \<Rightarrow> fval" where
  "log2_f m = (if m < 0 then NaN else if m = 0 then NegInf else Finite (log 2 (real_of_int m)))"

definition add_f :: "fval \<Rightarrow> real \<Rightarrow> fval" where
  "add_f x r = (case x of Finite y \<Rightarrow> Finite (y + r) | _ \<Rightarrow> x)"

definition ceil_f :: "fval \<Rightarrow> fval" where
  "ceil_f x = (case x of Finite y \<Rightarrow> Finite (of_int \<lceil>y\<rceil>) | _ \<Rightarrow> x)"

definition astype_int :: "fval \<Rightarrow> int" where
  "astype_int x =
     (case x of
        Finite y \<Rightarrow> (if y < 0 then \<lceil>y\<rceil> else \<lfloor>y\<rfloor>)
      | NegInf \<Rightarrow> - (2 ^ 31)
      | PosInf \<Rightarrow> 2 ^ 31 - 1
      | NaN \<Rightarrow> 0)"

definition infer_nbits :: "int ndarray \<Rightarrow> py_error + int" where
  "infer_nbits integers =
     (if data integers = [] then Inl ValueError
      else Inr (astype_int (ceil_f (add_f (log2_f (Max (set (data integers)))) (1 / 100000)))))"

text \<open>
  \<open>integers_to_bitstrings\<close> (lines 114 to 118 of observable.py):
  \<open>squeeze(((integers[:, None] & (1 << arange(nbits - 1, -1, -1))) > 0).astype(int))\<close>.
\<close>

definition integers_to_bitstrings :: "int ndarray \<Rightarrow> int option \<Rightarrow> py_error + int ndarray" where
  "integers_to_bitstrings integers nbits =
     ebind (as_int32_array integers) (\<lambda>integers0.
       let integers1 = atleast_1d integers0
       in ebind (case nbits of None \<Rightarrow> infer_nbits integers1 | Some n \<Rightarrow> Inr n) (\<lambda>nbits1.
            let masks = nd_map (\<lambda>e. shift_left32 1 e) (arange_down nbits1)
            in ebind (broadcast_op (\<lambda>x m. x AND m) (new_axis1 integers1) masks) (\<lambda>anded.
                 Inr (squeeze (nd_map (\<lambda>x. if x > 0 then 1 else 0) anded)))))"

text \<open>
  \<open>bitstrings.dot(convarr)\<close> contracts the last axis of \<open>bitstrings\<close> with the vector
  \<open>convarr\<close>; the rows of the last axis are consecutive in row-major order.
\<close>

fun rows :: "nat \<Rightarrow> nat \<Rightarrow> 'a list \<Rightarrow> 'a list list" where
  "rows 0 w xs = []"
| "rows (Suc m) w xs = take w xs # rows m w (drop w xs)"

definition dot_last :: "int ndarray \<Rightarrow> int ndarray \<Rightarrow> int ndarray" where
  "dot_last a v =
     \<lparr>shape = butlast (shape a),
      data = map (\<lambda>r. wrap32 (sum_list (map (\<lambda>(x, y). x * y) (zip r (data v)))))
               (rows (prod_list (butlast (shape a))) (last (shape a)) (data a))\<rparr>"

definition bitstrings_to_integers :: "int ndarray \<Rightarrow> py_error + int ndarray" where
  "bitstrings_to_integers bitstrings =
     ebind (as_int32_array bitstrings) (\<lambda>bitstrings0.
       let bitstrings2 = atleast_2d bitstrings0;
           convarr = nd_map (\<lambda>e. power32 2 e) (arange_down (int (last (shape bitstrings2))))
       in Inr (squeeze (dot_last bitstrings2 convarr)))"

text \<open>
  The words of the specification: the value of a bitstring read most significant bit
  first, and the big-endian binary expansion of an integer on \<open>n\<close> digits.
\<close>

definition big_endian_value :: "int list \<Rightarrow> int" where
  "big_endian_value bs = (\<Sum>j<length bs. bs ! j * 2 ^ (length bs - 1 - j))"


text \<open>
  The row that the masks \<open>1 << (nbits - 1), ..., 1 << 0\<close> select from one non-negative
  integer.
\<close>

definition bits_row :: "nat \<Rightarrow> int \<Rightarrow> int list" where
  "bits_row n v = map (\<lambda>j. if bit v (n - 1 - j) then 1 else 0) [0..<n]"

section \<open>Tensor operations of the array library\<close>

text \<open>
  \<open>jnp.tensordot\<close>, \<open>jnp.moveaxis\<close> and \<open>jnp.kron\<close> belong to the array library, not to
  this repository. They are modelled from the library's definition of them: an axis
  number may be negative and is counted from the end; \<open>tensordot\<close> is \<open>dot_general\<close>
  without batch axes, its result carrying the free axes of the first operand, then the
  free axes of the second; \<open>moveaxis\<close> builds its permutation by inserting the sources
  at the sorted destinations and transposes; \<open>kron\<close> pads the shorter shape with ones
  and multiplies the shapes axis by axis.
\<close>

definition canonicalize_axis :: "nat \<Rightarrow> int \<Rightarrow> py_error + nat" where
  "canonicalize_axis n i =
     (if - int n \<le> i \<and> i < int n then Inr (nat (if i < 0 then i + int n else i))
      else Inl AxisError)"

definition free_axes :: "nat \<Rightarrow> nat list \<Rightarrow> nat list" where
  "free_axes n axs = filter (\<lambda>p. p \<notin> set axs) [0..<n]"

text \<open>
  The full index of an operand: position \<open>p\<close> holds the contracted index that \<open>m\<close> gives
  it, and the free positions take the entries of \<open>f\<close> in order.
\<close>

fun merge_index :: "nat list \<Rightarrow> (nat \<Rightarrow> nat option) \<Rightarrow> nat list \<Rightarrow> nat list" where
  "merge_index [] m f = []"
| "merge_index (p # ps) m f =
     (case m p of
        Some v \<Rightarrow> v # merge_index ps m f
      | None \<Rightarrow> (case f of [] \<Rightarrow> 0 # merge_index ps m [] | x # f' \<Rightarrow> x # merge_index ps m f'))"

definition operand_index :: "nat \<Rightarrow> nat list \<Rightarrow> nat list \<Rightarrow> nat list \<Rightarrow> nat list" where
  "operand_index n axs c f = merge_index [0..<n] (map_of (zip axs c)) f"

definition tensordot ::
  "complex ndarray \<Rightarrow> complex ndarray \<Rightarrow> int list \<Rightarrow> int list \<Rightarrow> py_error + complex ndarray" where
  "tensordot a b axes_a axes_b =
     (if length axes_a \<noteq> length axes_b then Inl TypeError
      else
        ebind (emap (canonicalize_axis (ndim a)) axes_a) (\<lambda>ca.
        ebind (emap (canonicalize_axis (ndim b)) axes_b) (\<lambda>cb.
          if \<not> distinct ca \<or> \<not> distinct cb
             \<or> map ((!) (shape a)) ca \<noteq> map ((!) (shape b)) cb then Inl TypeError
          else
            let fa = free_axes (ndim a) ca; fb = free_axes (ndim b) cb;
                cshape = map ((!) (shape a)) ca
            in Inr (build (map ((!) (shape a)) fa @ map ((!) (shape b)) fb)
                 (\<lambda>idx. sum_list (map
                    (\<lambda>c. nd_at a (operand_index (ndim a) ca c (take (length fa) idx))
                         * nd_at b (operand_index (ndim b) cb c (drop (length fa) idx)))
                    (indices cshape)))))))"

text \<open>Python's \<open>list.insert\<close>: a position past the end appends.\<close>

definition py_insert :: "'a list \<Rightarrow> nat \<Rightarrow> 'a \<Rightarrow> 'a list" where
  "py_insert xs i x = take i xs @ x # drop i xs"

fun index_of :: "'a list \<Rightarrow> 'a \<Rightarrow> nat" where
  "index_of [] x = 0"
| "index_of (y # ys) x = (if x = y then 0 else Suc (index_of ys x))"

text \<open>\<open>lax.transpose a perm\<close>: axis \<open>i\<close> of the result is axis \<open>perm[i]\<close> of \<open>a\<close>.\<close>

definition transpose_nd :: "'a ndarray \<Rightarrow> nat list \<Rightarrow> py_error + 'a ndarray" where
  "transpose_nd a perm =
     (if sort perm \<noteq> [0..<ndim a] then Inl TypeError
      else Inr (build (map ((!) (shape a)) perm)
                  (\<lambda>idx. nd_at a (map (\<lambda>m. idx ! index_of perm m) [0..<ndim a]))))"

definition moveaxis :: "'a ndarray \<Rightarrow> int list \<Rightarrow> int list \<Rightarrow> py_error + 'a ndarray" where
  "moveaxis a source destination =
     ebind (emap (canonicalize_axis (ndim a)) source) (\<lambda>src.
     ebind (emap (canonicalize_axis (ndim a)) destination) (\<lambda>dst.
       if length src \<noteq> length dst then Inl ValueError
       else
         let perm0 = filter (\<lambda>i. i \<notin> set src) [0..<ndim a];
             perm = foldl (\<lambda>perm (dest, s). py_insert perm dest s) perm0 (sort (zip dst src))
         in transpose_nd a perm))"

definition kron :: "complex ndarray \<Rightarrow> complex ndarray \<Rightarrow> complex ndarray" where
  "kron a b =
     (let n = max (ndim a) (ndim b);
          sa = replicate (n - ndim a) 1 @ shape a;
          sb = replicate (n - ndim b) 1 @ shape b
      in build (map (\<lambda>(x, y). x * y) (zip sa sb))
           (\<lambda>idx. nd_at (a\<lparr>shape := sa\<rparr>) (map (\<lambda>(i, d). i div d) (zip idx sb))
                 * nd_at (b\<lparr>shape := sb\<rparr>) (map (\<lambda>(i, d). i mod d) (zip idx sb))))"

section \<open>Expectation values\<close>

text \<open>
  A gate of a term is given by name or as an array. The registry of named gates
  (\<open>qujax.gates\<close>) is a parameter: a partial map from names to arrays.
\<close>

datatype gate_spec = Name string | Arr "complex ndarray"

text \<open>
  \<open>arr.reshape((2,) * int(jnp.log2(arr.size)))\<close>. \<open>jnp.log2\<close> is the library's logarithm
  in single precision, which need not be exact, and \<open>int\<close> truncates it: the truncated
  logarithm \<open>trunc_log2\<close> of a positive size is a parameter of the model. The logarithm of
  zero is minus infinity, which \<open>int\<close> refuses; a size that differs from two to the
  truncated logarithm does not fit the new shape.
\<close>

definition reshape_binary :: "(nat \<Rightarrow> int) \<Rightarrow> 'a ndarray \<Rightarrow> py_error + 'a ndarray" where
  "reshape_binary trunc_log2 a =
     (if nd_size a = 0 then Inl OverflowError
      else if 2 ^ nat (trunc_log2 (nd_size a)) \<noteq> nd_size a then Inl TypeError
      else Inr \<lparr>shape = replicate (nat (trunc_log2 (nd_size a))) 2, data = data a\<rparr>)"

definition resolve_gate :: "(string \<Rightarrow> complex ndarray option) \<Rightarrow> gate_spec \<Rightarrow> py_error + complex ndarray" where
  "resolve_gate gates g =
     (case g of
        Name s \<Rightarrow> (case gates s of None \<Rightarrow> Inl KeyError | Some a \<Rightarrow> Inr a)
      | Arr a \<Rightarrow> Inr a)"

definition get_gate_tensor ::
  "(nat \<Rightarrow> int) \<Rightarrow> (string \<Rightarrow> complex ndarray option) \<Rightarrow> gate_spec list
     \<Rightarrow> py_error + complex ndarray" where
  "get_gate_tensor trunc_log2 gates gate_seq =
     ebind (emap (resolve_gate gates) gate_seq) (\<lambda>single_gate_arrs.
     ebind (emap (reshape_binary trunc_log2) single_gate_arrs) (\<lambda>single_gate_arrs2.
       case single_gate_arrs2 of
         [] \<Rightarrow> Inl IndexError
       | g0 # rest \<Rightarrow> reshape_binary trunc_log2 (foldl kron g0 rest)))"

text \<open>Lines 32 to 34: the gate applied to the state, its axes moved back into place.\<close>

definition apply_gate_tensor ::
  "complex ndarray \<Rightarrow> int list \<Rightarrow> complex ndarray \<Rightarrow> py_error + complex ndarray" where
  "apply_gate_tensor gate_tensor qubit_inds statetensor =
     ebind (tensordot gate_tensor statetensor
              (map (\<lambda>j. - int (length qubit_inds) + int j) [0..<length qubit_inds]) qubit_inds)
       (\<lambda>statetensor_new.
          moveaxis statetensor_new (map int [0..<length qubit_inds]) qubit_inds)"

definition statetensor_to_single_expectation ::
  "complex ndarray \<Rightarrow> int list \<Rightarrow> complex ndarray \<Rightarrow> py_error + real ndarray" where
  "statetensor_to_single_expectation gate_tensor qubit_inds statetensor =
     ebind (apply_gate_tensor gate_tensor qubit_inds statetensor) (\<lambda>statetensor_new.
       let axes = map int [0..<ndim statetensor]
       in ebind (tensordot (nd_map cnj statetensor) statetensor_new axes axes) (\<lambda>r.
            Inr (nd_map Re r)))"

text \<open>The loop of \<open>statetensor_to_expectation_func\<close>, \<open>out\<close> starting at \<open>0\<close>.\<close>

fun expectation_loop ::
  "(real \<times> (complex ndarray \<Rightarrow> py_error + real ndarray)) list \<Rightarrow> complex ndarray
     \<Rightarrow> real ndarray \<Rightarrow> py_error + real ndarray" where
  "expectation_loop [] statetensor out = Inr out"
| "expectation_loop ((coeff, f) # rest) statetensor out =
     ebind (f statetensor) (\<lambda>v.
     ebind (broadcast_op (+) out (nd_map ((*) coeff) v)) (\<lambda>out'.
       expectation_loop rest statetensor out'))"

definition get_statetensor_to_expectation_func ::
  "(nat \<Rightarrow> int) \<Rightarrow> (string \<Rightarrow> complex ndarray option) \<Rightarrow> gate_spec list list
     \<Rightarrow> int list list \<Rightarrow> real list
     \<Rightarrow> py_error + (complex ndarray \<Rightarrow> py_error + real ndarray)" where
  "get_statetensor_to_expectation_func trunc_log2 gates gate_seq_seq qubits_seq_seq coefficients =
     ebind (emap (\<lambda>(gns, qi). ebind (get_gate_tensor trunc_log2 gates gns) (\<lambda>g.
                    Inr (statetensor_to_single_expectation g qi)))
              (zip gate_seq_seq qubits_seq_seq)) (\<lambda>apply_gate_funcs.
       Inr (\<lambda>statetensor. expectation_loop (zip coefficients apply_gate_funcs) statetensor (scalar 0)))"

text \<open>
  Example inputs: two Pauli gates, a registry naming them, a normalised one-qubit state,
  and a truncated logarithm that is exact on the powers of two.
\<close>

fun floor_log2 :: "nat \<Rightarrow> nat" where
  "floor_log2 n = (if n < 2 then 0 else Suc (floor_log2 (n div 2)))"

declare floor_log2.simps [simp del]

definition exact_log2 :: "nat \<Rightarrow> int" where
  "exact_log2 n = int (floor_log2 n)"


definition pauli_x :: "complex ndarray" where
  "pauli_x = \<lparr>shape = [2, 2], data = [0, 1, 1, 0]\<rparr>"

definition pauli_z :: "complex ndarray" where
  "pauli_z = \<lparr>shape = [2, 2], data = [1, 0, 0, - 1]\<rparr>"

definition gates_example :: "string \<Rightarrow> complex ndarray option" where
  "gates_example s = (if s = ''X'' then Some pauli_x else if s = ''Z'' then Some pauli_z else None)"

definition psi_example :: "complex ndarray" where
  "psi_example = \<lparr>shape = [2], data = [3 / 5, 4 / 5]\<rparr>"

section \<open>Sampling\<close>

text \<open>
  \<open>jax.random.choice\<close> belongs to the random-number library. It is a parameter of the
  model: a function of the key, the population, the number of samples and the weights,
  as the library's functional random-number design has it.
\<close>

type_synonym 'k choice_fn = "'k \<Rightarrow> int ndarray \<Rightarrow> nat \<Rightarrow> real ndarray \<Rightarrow> py_error + int ndarray"

definition arange :: "nat \<Rightarrow> int ndarray" where
  "arange n = vector (map int [0..<n])"

definition flatten :: "'a ndarray \<Rightarrow> 'a ndarray" where
  "flatten a = \<lparr>shape = [nd_size a], data = data a\<rparr>"

definition sample_integers :: "'k choice_fn \<Rightarrow> 'k \<Rightarrow> complex ndarray \<Rightarrow> nat \<Rightarrow> py_error + int ndarray" where
  "sample_integers choice random_key statetensor n_samps =
     (let sv_probs = nd_map (\<lambda>z. (cmod z)\<^sup>2) (flatten statetensor)
      in choice random_key (arange (nd_size statetensor)) n_samps sv_probs)"

definition sample_bitstrings :: "'k choice_fn \<Rightarrow> 'k \<Rightarrow> complex ndarray \<Rightarrow> nat \<Rightarrow> py_error + int ndarray" where
  "sample_bitstrings choice random_key statetensor n_samps =
     ebind (sample_integers choice random_key statetensor n_samps) (\<lambda>sampled.
       integers_to_bitstrings sampled (Some (int (ndim statetensor))))"

text \<open>
  The words of the specification for the inferred width: the least width that holds the
  maximum, \<open>ceil(log2(max + 1))\<close>, and at least one bit.
\<close>

definition minimal_width :: "int \<Rightarrow> int" where
  "minimal_width m = max 1 \<lceil>log 2 (real_of_int m + 1)\<rceil>"

text \<open>Example inputs: a sampler that always draws the last index, and a two-qubit state.\<close>

definition choice_last :: "nat choice_fn" where
  "choice_last key a n_samps p = Inr (vector (replicate n_samps (last (data a))))"

definition bell_state :: "complex ndarray" where
  "bell_state = \<lparr>shape = [2, 2], data = [1 / sqrt 2, 0, 0, 1 / sqrt 2]\<rparr>"

text \<open>The offset of a multi-index into binary axes: its entries read as a binary number.\<close>

definition bits_to_nat :: "nat list \<Rightarrow> nat" where
  "bits_to_nat bs = foldl (\<lambda>acc b. 2 * acc + b) 0 bs"

text \<open>
  The words of the specification: the multi-index \<open>i\<close> with the entries at the target
  qubits \<open>qs\<close> replaced, in order, by the entries of \<open>c\<close>.
\<close>

definition replace_at :: "nat list \<Rightarrow> nat list \<Rightarrow> nat list \<Rightarrow> nat list" where
  "replace_at i qs c = fold (\<lambda>(q, v) j. j[q := v]) (zip qs c) i"

section \<open>Properties of the codec\<close>

lemma indices_single: "indices [n] = map (\<lambda>j. [j]) [0..<n]"
  by (simp add: concat_map_singleton)

lemma and_pow2_pos_iff: "(0 < (x::int) AND 2 ^ k) = bit x k"
proof -
  have "0 \<le> x AND 2 ^ k" by simp
  moreover have "(x AND 2 ^ k = 0) = (\<not> bit x k)" by (rule and_exp_eq_0_iff_not_bit)
  ultimately show ?thesis by linarith
qed

lemma wrap32_id: "int32_range x \<Longrightarrow> wrap32 x = x"
  by (simp add: wrap32_def int32_range_def signed_take_bit_int_eq_self)

lemma high_bits_zero:
  assumes "0 \<le> v" and "v < 2 ^ 31" and "31 \<le> q"
  shows "\<not> bit (v::int) q"
proof -
  have "take_bit 31 v = v" using assms(1,2) by (simp add: take_bit_int_eq_self)
  then have "bit v q = bit (take_bit 31 v) q" by simp
  then show ?thesis using assms(3) by (simp add: bit_take_bit_iff)
qed

lemma mask_selects_bit:
  assumes "0 \<le> v" and "v < 2 ^ 31"
  shows "(0 < v AND shift_left32 1 (int e)) = bit v e"
proof -
  consider "e < 31" | "e = 31" | "32 \<le> e" by linarith
  then show ?thesis
  proof cases
    case 1
    then have hi: "(2::int) ^ e < 2 ^ 31" by (intro power_strict_increasing) simp_all
    have lo: "- (2 ^ 31) \<le> (2::int) ^ e" by (rule order_trans[of _ 0]) simp_all
    have "int32_range (2 ^ e)" unfolding int32_range_def using lo hi by blast
    then have "shift_left32 1 (int e) = 2 ^ e"
      using 1 by (simp add: shift_left32_def wrap32_id)
    then show ?thesis by (simp only: and_pow2_pos_iff)
  next
    case 2
    have m: "shift_left32 1 (int e) = signed_take_bit 31 (2 ^ 31)"
      using 2 by (simp add: shift_left32_def wrap32_def)
    have mb: "bit (signed_take_bit 31 ((2::int) ^ 31)) q = (31 \<le> q)" for q
      unfolding bit_signed_take_bit_iff bit_exp_iff by (auto simp add: min_def)
    have "v AND signed_take_bit 31 (2 ^ 31) = 0"
    proof (rule bit_eqI)
      fix q
      have "\<not> (bit v q \<and> 31 \<le> q)" using high_bits_zero[OF assms] by blast
      then have "\<not> bit (v AND signed_take_bit 31 (2 ^ 31)) q"
        unfolding bit_and_iff mb .
      then show "bit (v AND signed_take_bit 31 (2 ^ 31)) q = bit (0::int) q"
        by (simp only: bit_0_eq) simp
    qed
    moreover have "\<not> bit v e" using high_bits_zero[OF assms] 2 by simp
    ultimately show ?thesis by (simp add: m)
  next
    case 3
    then have "shift_left32 1 (int e) = 0" by (simp add: shift_left32_def)
    moreover have "\<not> bit v e" using high_bits_zero[OF assms] 3 by simp
    ultimately show ?thesis by simp
  qed
qed

lemma broadcast_shapes_col_row: "broadcast_shapes [m, 1] [n] = Inr [m, n]"
  by (simp add: broadcast_shapes_def)

lemma concat_map_nth_rows:
  "concat (map (\<lambda>i. f (vs ! i)) [0..<length vs]) = concat (map f vs)"
proof -
  have "map (\<lambda>i. f (vs ! i)) [0..<length vs] = map f (map ((!) vs) [0..<length vs])"
    by simp
  then show ?thesis by (simp only: map_nth)
qed

lemma build_2d:
  "build [m, n] f = \<lparr>shape = [m, n], data = concat (map (\<lambda>i. map (\<lambda>j. f [i, j]) [0..<n]) [0..<m])\<rparr>"
  by (simp add: build_def map_concat comp_def concat_map_singleton del: upt_Suc)

lemma nd_map_2d:
  "nd_map g \<lparr>shape = s, data = concat (map (\<lambda>i. map (\<lambda>j. h i j) js) is)\<rparr>
     = \<lparr>shape = s, data = concat (map (\<lambda>i. map (\<lambda>j. g (h i j)) js) is)\<rparr>"
  by (simp add: nd_map_def map_concat comp_def)

lemma as_int32_array_ok:
  "\<forall>x\<in>set (data a). - (2 ^ 31) \<le> x \<and> x < 2 ^ 31 \<Longrightarrow> as_int32_array a = Inr a"
  by (simp add: as_int32_array_def list_all_iff int32_range_def)

lemma itb_vector:
  assumes "\<forall>v\<in>set vs. 0 \<le> v \<and> v < 2 ^ 31"
  shows "integers_to_bitstrings (vector vs) (Some (int n)) =
     Inr (squeeze \<lparr>shape = [length vs, n], data = concat (map (bits_row n) vs)\<rparr>)"
proof -
  let ?m = "length vs"
  let ?A = "new_axis1 (atleast_1d (vector vs))"
  let ?M = "nd_map (\<lambda>e. shift_left32 1 e) (arange_down (int n))"
  have ok: "as_int32_array (vector vs) = Inr (vector vs)"
    using assms by (intro as_int32_array_ok) (auto simp add: vector_def)
  have sh: "shape ?A = [?m, 1]"
    by (simp add: new_axis1_def atleast_1d_def vector_def)
  have shm: "shape ?M = [n]" by (simp add: nd_map_def arange_down_def vector_def)
  have a: "nd_at ?A (bc_index [?m, 1] [i, j]) = vs ! i" if "i < ?m" for i j
    using that by (auto simp add: nd_at_def bc_index_def new_axis1_def atleast_1d_def vector_def)
  have b: "nd_at ?M (bc_index [n] [i, j]) = shift_left32 1 (int (n - 1 - j))" if "j < n" for i j
    using that by (auto simp add: nd_at_def bc_index_def nd_map_def arange_down_def vector_def
        nat_diff_distrib' of_nat_diff algebra_simps)
  have rowj: "map (\<lambda>j. if 0 < nd_at ?A (bc_index [?m, 1] [i, j]) AND nd_at ?M (bc_index [n] [i, j])
                        then 1 else (0::int)) [0..<n] = bits_row n (vs ! i)" if "i < ?m" for i
  proof -
    have v: "0 \<le> vs ! i" "vs ! i < 2 ^ 31" using assms that by simp_all
    show ?thesis
      unfolding bits_row_def
      by (rule map_cong[OF refl])
        (simp only: a[OF that] b mask_selects_bit[OF v] atLeastLessThan_iff set_upt)
  qed
  have "concat (map (\<lambda>i. map (\<lambda>j. if 0 < nd_at ?A (bc_index [?m, 1] [i, j]) AND nd_at ?M (bc_index [n] [i, j])
                        then 1 else (0::int)) [0..<n]) [0..<?m])
        = concat (map (\<lambda>i. bits_row n (vs ! i)) [0..<?m])"
    by (rule arg_cong[where f=concat], rule map_cong[OF refl]) (simp only: rowj atLeastLessThan_iff set_upt)
  then have main: "concat (map (\<lambda>i. map (\<lambda>j. if 0 < nd_at ?A (bc_index [?m, 1] [i, j]) AND nd_at ?M (bc_index [n] [i, j])
                        then 1 else (0::int)) [0..<n]) [0..<?m]) = concat (map (bits_row n) vs)"
    by (simp only: concat_map_nth_rows)
  have bo: "broadcast_op (\<lambda>x m. x AND m) ?A ?M =
        Inr \<lparr>shape = [?m, n], data = concat (map (\<lambda>i. map (\<lambda>j. nd_at ?A (bc_index [?m, 1] [i, j]) AND nd_at ?M (bc_index [n] [i, j])) [0..<n]) [0..<?m])\<rparr>"
    unfolding broadcast_op_def sh shm broadcast_shapes_col_row ebind_def
    by (simp only: sum.case build_2d)
  show ?thesis
    unfolding integers_to_bitstrings_def ok Let_def option.case ebind_def sum.case bo
    by (simp only: sum.case nd_map_2d main)
qed

lemma big_endian_value_Cons:
  "big_endian_value (x # xs) = x * 2 ^ length xs + big_endian_value xs"
  by (simp add: big_endian_value_def sum.lessThan_Suc_shift del: sum.lessThan_Suc)

lemma bits_row_Suc:
  "bits_row (Suc n) v = (if bit v n then 1 else 0) # bits_row n v"
  by (simp add: bits_row_def upt_rec[of 0] map_Suc_upt[symmetric] del: upt_Suc)

lemma length_bits_row: "length (bits_row n v) = n"
  by (simp add: bits_row_def)

lemma bits_row_bits: "set (bits_row n v) \<subseteq> {0, 1}"
  by (auto simp add: bits_row_def)

lemma big_endian_value_bits_row: "big_endian_value (bits_row n v) = take_bit n v"
proof (induction n)
  case 0
  show ?case by (simp add: bits_row_def big_endian_value_def)
next
  case (Suc n)
  show ?case
    by (simp add: bits_row_Suc big_endian_value_Cons length_bits_row Suc take_bit_Suc_from_most)
qed


lemma big_endian_value_nonneg: "set r \<subseteq> {0, 1} \<Longrightarrow> 0 \<le> big_endian_value r"
proof -
  assume "set r \<subseteq> {0, 1}"
  then have "r ! j \<in> {0, 1}" if "j < length r" for j
    using nth_mem[OF that] by (rule subsetD)
  then have "0 \<le> r ! j" if "j < length r" for j
    using that by fastforce
  then have "0 \<le> r ! j * 2 ^ (length r - 1 - j)" if "j < length r" for j
    using that by (intro mult_nonneg_nonneg) simp_all
  then show ?thesis unfolding big_endian_value_def by (intro sum_nonneg) simp
qed

lemma wrap32_mod: "wrap32 x mod 2 ^ 32 = x mod 2 ^ 32"
proof -
  have "take_bit 32 (signed_take_bit 31 x) = take_bit 32 x"
    by (rule take_bit_signed_take_bit) simp
  then show ?thesis by (simp add: wrap32_def take_bit_eq_mod)
qed

lemma wrap32_cong: "x mod 2 ^ 32 = y mod 2 ^ 32 \<Longrightarrow> wrap32 x = wrap32 y"
  by (simp add: wrap32_def signed_take_bit_eq_iff_take_bit_eq take_bit_eq_mod)

lemma dot_pows_wrap:
  assumes "length r = w"
  shows "wrap32 (sum_list (map (\<lambda>(x, y). x * y)
           (zip r (map (\<lambda>j. power32 2 (int (w - 1 - j))) [0..<w])))) = wrap32 (big_endian_value r)"
proof -
  have s: "sum_list (map (\<lambda>(x, y). x * y) (zip r (map (\<lambda>j. power32 2 (int (w - 1 - j))) [0..<w])))
        = (\<Sum>j = 0..<w. r ! j * power32 2 (int (w - 1 - j)))"
    using assms(1) by (simp add: sum_list_sum_nth)
  have tm: "(r ! j * power32 2 (int (w - 1 - j))) mod 2 ^ 32 = (r ! j * 2 ^ (w - 1 - j)) mod 2 ^ 32"
    for j
  proof -
    have "power32 2 (int (w - 1 - j)) mod 2 ^ 32 = 2 ^ (w - 1 - j) mod 2 ^ 32"
      unfolding power32_def by (simp only: wrap32_mod nat_int)
    then show ?thesis by (metis mod_mult_right_eq)
  qed
  have "(\<Sum>j = 0..<w. r ! j * power32 2 (int (w - 1 - j))) mod 2 ^ 32
          = (\<Sum>j = 0..<w. (r ! j * power32 2 (int (w - 1 - j))) mod 2 ^ 32) mod 2 ^ 32"
    by (simp only: mod_sum_eq)
  also have "\<dots> = (\<Sum>j = 0..<w. (r ! j * 2 ^ (w - 1 - j)) mod 2 ^ 32) mod 2 ^ 32"
    by (simp only: tm)
  also have "\<dots> = (\<Sum>j = 0..<w. r ! j * 2 ^ (w - 1 - j)) mod 2 ^ 32"
    by (simp only: mod_sum_eq)
  finally have "wrap32 (\<Sum>j = 0..<w. r ! j * power32 2 (int (w - 1 - j)))
                  = wrap32 (\<Sum>j = 0..<w. r ! j * 2 ^ (w - 1 - j))"
    by (rule wrap32_cong)
  also have "(\<Sum>j = 0..<w. r ! j * 2 ^ (w - 1 - j)) = big_endian_value r"
    using assms(1) by (simp add: big_endian_value_def atLeast0LessThan)
  finally show ?thesis by (simp only: s)
qed

lemma wrap32_bitstring_value:
  assumes "set r \<subseteq> {0, 1}" and "big_endian_value r < 2 ^ 31"
  shows "wrap32 (big_endian_value r) = big_endian_value r"
  using assms(2) big_endian_value_nonneg[OF assms(1)]
  by (intro wrap32_id) (simp add: int32_range_def)

lemma convarr_data:
  "data (nd_map (\<lambda>e. power32 2 e) (arange_down (int w)))
     = map (\<lambda>j. power32 2 (int (w - 1 - j))) [0..<w]"
  by (auto simp add: nd_map_def arange_down_def vector_def of_nat_diff algebra_simps)

lemma rows_concat:
  "\<forall>r\<in>set rs. length r = w \<Longrightarrow> rows (length rs) w (concat rs) = rs"
  by (induction rs) auto

lemma bti_matrix_wrap:
  assumes "\<forall>r\<in>set rs. length r = w \<and> (\<forall>x\<in>set r. - (2 ^ 31) \<le> x \<and> x < 2 ^ 31)"
  shows "bitstrings_to_integers \<lparr>shape = [length rs, w], data = concat rs\<rparr>
           = Inr (squeeze (vector (map (\<lambda>r. wrap32 (big_endian_value r)) rs)))"
proof -
  let ?B = "\<lparr>shape = [length rs, w], data = concat rs\<rparr>"
  have len: "\<forall>r\<in>set rs. length r = w" using assms by simp
  have "\<forall>x\<in>set (data ?B). - (2 ^ 31) \<le> x \<and> x < 2 ^ 31" using assms by fastforce
  then have ok: "as_int32_array ?B = Inr ?B"
    by (rule as_int32_array_ok)
  have "map (\<lambda>r. wrap32 (sum_list (map (\<lambda>(x, y). x * y)
           (zip r (map (\<lambda>j. power32 2 (int (w - 1 - j))) [0..<w]))))) rs
        = map (\<lambda>r. wrap32 (big_endian_value r)) rs"
    using assms by (intro map_cong refl dot_pows_wrap) simp_all
  then have d: "dot_last ?B (nd_map (\<lambda>e. power32 2 e) (arange_down (int w)))
                  = vector (map (\<lambda>r. wrap32 (big_endian_value r)) rs)"
    unfolding dot_last_def convarr_data vector_def
    by (simp add: rows_concat[OF len])
  have a2: "atleast_2d ?B = ?B" by (simp add: atleast_2d_def)
  show ?thesis
    unfolding bitstrings_to_integers_def ok ebind_def sum.case Let_def a2
    using d by simp
qed

lemma bitstring_in_range:
  "set r \<subseteq> {0, 1} \<Longrightarrow> \<forall>x\<in>set r. - (2 ^ 31) \<le> x \<and> x < (2::int) ^ 31"
  by fastforce


lemma bti_vector_wrap:
  assumes "\<forall>x\<in>set r. - (2 ^ 31) \<le> x \<and> x < 2 ^ 31"
  shows "bitstrings_to_integers (vector r) = Inr (scalar (wrap32 (big_endian_value r)))"
proof -
  have ok: "as_int32_array (vector r) = Inr (vector r)"
    using assms(1) by (intro as_int32_array_ok) (simp add: vector_def)
  have ok': "as_int32_array \<lparr>shape = [1, length r], data = r\<rparr> = Inr \<lparr>shape = [1, length r], data = r\<rparr>"
    using assms(1) by (intro as_int32_array_ok) simp
  have "bitstrings_to_integers (vector r) = bitstrings_to_integers \<lparr>shape = [1, length r], data = r\<rparr>"
    unfolding bitstrings_to_integers_def ok ok' by (simp add: ebind_def atleast_2d_def vector_def)
  also have "\<dots> = Inr (scalar (wrap32 (big_endian_value r)))"
    using bti_matrix_wrap[of "[r]" "length r"] assms by (simp add: squeeze_def vector_def scalar_def)
  finally show ?thesis .
qed

lemma bti_vector:
  assumes "set r \<subseteq> {0, 1}" and "big_endian_value r < 2 ^ 31"
  shows "bitstrings_to_integers (vector r) = Inr (scalar (big_endian_value r))"
  using bti_vector_wrap[OF bitstring_in_range[OF assms(1)]] wrap32_bitstring_value[OF assms]
  by simp

lemma bti_row:
  assumes "length r = w" and "set r \<subseteq> {0, 1}" and "big_endian_value r < 2 ^ 31"
  shows "bitstrings_to_integers (squeeze \<lparr>shape = [1, w], data = r\<rparr>) = Inr (scalar (big_endian_value r))"
proof -
  let ?S = "squeeze \<lparr>shape = [1, w], data = r\<rparr>"
  have ok: "as_int32_array ?S = Inr ?S"
    using assms(2) by (intro as_int32_array_ok) (auto simp add: squeeze_def)
  have ok': "as_int32_array (vector r) = Inr (vector r)"
    using assms(2) by (intro as_int32_array_ok) (auto simp add: vector_def)
  have a2: "atleast_2d ?S = atleast_2d (vector r)"
    using assms(1) by (simp add: atleast_2d_def squeeze_def vector_def)
  have "bitstrings_to_integers ?S = bitstrings_to_integers (vector r)"
    unfolding bitstrings_to_integers_def ok ok' ebind_def sum.case a2 ..
  then show ?thesis using bti_vector[OF assms(2,3)] by simp
qed

lemma itb_scalar:
  assumes "0 \<le> v" and "v < 2 ^ 31"
  shows "integers_to_bitstrings (scalar v) (Some (int n))
           = Inr (squeeze \<lparr>shape = [1, n], data = bits_row n v\<rparr>)"
proof -
  have ok: "as_int32_array (scalar v) = Inr (scalar v)"
    using assms by (intro as_int32_array_ok) (simp add: scalar_def)
  have ok': "as_int32_array (vector [v]) = Inr (vector [v])"
    using assms by (intro as_int32_array_ok) (simp add: vector_def)
  have "integers_to_bitstrings (scalar v) (Some (int n)) = integers_to_bitstrings (vector [v]) (Some (int n))"
    unfolding integers_to_bitstrings_def ok ok' ebind_def sum.case
    by (simp add: atleast_1d_def scalar_def vector_def)
  then show ?thesis using itb_vector[of "[v]" n] assms by simp
qed




lemma overflow_at_conversion:
  "integers_to_bitstrings (scalar (2 ^ 31)) nbits = Inl OverflowError"
  by (simp add: integers_to_bitstrings_def as_int32_array_def scalar_def int32_range_def ebind_def)





text \<open>
  Claim C3 says that for every \<open>n \<ge> 1\<close> and every integer \<open>v\<close> with \<open>0 \<le> v < 2 ^ n\<close>,
  \<open>bitstrings_to_integers (integers_to_bitstrings v n)\<close> is \<open>v\<close> again. The arrays hold
  32-bit integers: for \<open>n = 32\<close> and \<open>v = 2 ^ 31\<close> the conversion of \<open>v\<close> to an array
  raises an overflow error and no value comes back.
\<close>

theorem codec_roundtrip_overflow_counterexample:
  "(1::nat) \<le> 32 \<and> (0::int) \<le> 2 ^ 31 \<and> (2::int) ^ 31 < 2 ^ 32
   \<and> ebind (integers_to_bitstrings (scalar (2 ^ 31)) (Some (int 32))) bitstrings_to_integers
       = Inl OverflowError"
proof -
  have "integers_to_bitstrings (scalar (2 ^ 31)) (Some (int 32)) = Inl OverflowError"
    by (rule overflow_at_conversion)
  then have "ebind (integers_to_bitstrings (scalar (2 ^ 31)) (Some (int 32))) bitstrings_to_integers
       = Inl OverflowError"
    by (simp only: ebind_def sum.case)
  then show ?thesis by simp
qed

text \<open>
  Claim C3, amended. For every \<open>n \<ge> 1\<close> and every integer \<open>v\<close> with \<open>0 \<le> v < 2 ^ n\<close> that
  is a 32-bit integer, \<open>v < 2 ^ 31\<close>, \<open>bitstrings_to_integers (integers_to_bitstrings v n)\<close>
  is \<open>v\<close> again; this holds also for widths \<open>n\<close> of 32 and more, where the masks and the
  powers of two wrap around.
\<close>

theorem codec_roundtrip:
  assumes "1 \<le> n" and "0 \<le> v" and "v < 2 ^ n" and "v < 2 ^ 31"
  shows "ebind (integers_to_bitstrings (scalar v) (Some (int n))) bitstrings_to_integers
           = Inr (scalar v)"
proof -
  have tb: "take_bit n v = v" using assms by (simp add: take_bit_int_eq_self)
  have val: "big_endian_value (bits_row n v) = v"
    by (simp only: big_endian_value_bits_row tb)
  have "bitstrings_to_integers (squeeze \<lparr>shape = [1, n], data = bits_row n v\<rparr>)
          = Inr (scalar (big_endian_value (bits_row n v)))"
    using assms(4) by (intro bti_row length_bits_row bits_row_bits) (simp only: val)
  then show ?thesis
    unfolding itb_scalar[OF assms(2,4)] ebind_def
    by (simp only: sum.case val)
qed

theorem codec_roundtrip_witness:
  "(1::nat) \<le> 3 \<and> (0::int) \<le> 6 \<and> (6::int) < 2 ^ 3 \<and> (6::int) < 2 ^ 31
   \<and> ebind (integers_to_bitstrings (scalar 6) (Some (int 3))) bitstrings_to_integers
       = Inr (scalar 6)"
  using codec_roundtrip [of 3 6] by simp







section \<open>Properties of the weighted observable combiner\<close>

lemma emap_eq_Inr_iff:
  "emap f xs = Inr ys \<longleftrightarrow> length ys = length xs \<and> (\<forall>i<length xs. f (xs ! i) = Inr (ys ! i))"
proof (induction xs arbitrary: ys)
  case Nil
  show ?case by auto
next
  case (Cons x xs)
  show ?case
  proof (cases "f x")
    case (Inl e)
    then show ?thesis by (auto simp add: ebind_def)
  next
    case (Inr y)
    show ?thesis
    proof (cases "emap f xs")
      case (Inl e)
      have "\<not> (length (tl ys) = length xs \<and> (\<forall>i<length xs. f (xs ! i) = Inr (tl ys ! i)))"
        using Cons.IH[of "tl ys"] Inl by simp
      then show ?thesis using Inl Inr
        by (cases ys) (auto simp add: ebind_def)
    next
      case (Inr zs)
      note IH = Cons.IH[of "tl ys"]
      show ?thesis
      proof (cases ys)
        case Nil
        then show ?thesis using Inr \<open>f x = Inr y\<close> by (simp add: ebind_def)
      next
        case (Cons y' ys')
        have "(\<forall>i<Suc (length xs). f ((x # xs) ! i) = Inr ((y' # ys') ! i))
              \<longleftrightarrow> f x = Inr y' \<and> (\<forall>i<length xs. f (xs ! i) = Inr (ys' ! i))"
          by (auto simp add: less_Suc_eq_0_disj)
        then show ?thesis using Inr \<open>f x = Inr y\<close> Cons Cons.IH[of ys']
          by (auto simp add: ebind_def)
      qed
    qed
  qed
qed

lemma broadcast_add_scalar:
  "broadcast_op (+) (scalar (x::real)) (scalar y) = Inr (scalar (x + y))"
  by (simp add: broadcast_op_def broadcast_shapes_def ebind_def build_def scalar_def nd_at_def bc_index_def)

lemma nd_map_scalar: "nd_map f (scalar x) = scalar (f x)"
  by (simp add: nd_map_def scalar_def)

lemma expectation_loop_scalars:
  assumes "length fs = length cs" and "length es = length cs"
    and "\<forall>i<length cs. (fs ! i) st = Inr (scalar (es ! i))"
  shows "expectation_loop (zip cs fs) st (scalar acc)
           = Inr (scalar (foldl (+) acc (map (\<lambda>(c, e). c * e) (zip cs es))))"
  using assms
proof (induction cs arbitrary: fs es acc)
  case Nil
  then show ?case by simp
next
  case (Cons c cs)
  from Cons.prems obtain f fs' where fs: "fs = f # fs'" by (cases fs) auto
  from Cons.prems obtain e es' where es: "es = e # es'" by (cases es) auto
  have f: "f st = Inr (scalar e)" using Cons.prems(3) fs es by auto
  have rest: "\<forall>i<length cs. (fs' ! i) st = Inr (scalar (es' ! i))"
    using Cons.prems(3) fs es by auto
  have "expectation_loop (zip cs fs') st (scalar (acc + c * e))
          = Inr (scalar (foldl (+) (acc + c * e) (map (\<lambda>(c, e). c * e) (zip cs es'))))"
    using Cons.prems fs es rest by (intro Cons.IH) auto
  then show ?case
    by (simp add: fs es f ebind_def nd_map_scalar broadcast_add_scalar)
qed

lemma foldl_add_sum:
  "foldl (+) (acc::real) xs = acc + (\<Sum>i<length xs. xs ! i)"
proof (induction xs arbitrary: acc)
  case Nil
  show ?case by simp
next
  case (Cons x xs)
  show ?case by (simp add: Cons.IH sum.lessThan_Suc_shift del: sum.lessThan_Suc)
qed


lemma combiner_build:
  assumes "\<forall>i<min (length gs) (length qs). get_gate_tensor trunc_log2 gates (gs ! i) = Inr (G i)"
  shows "get_statetensor_to_expectation_func trunc_log2 gates gs qs cs =
           Inr (\<lambda>st. expectation_loop
                  (zip cs (map (\<lambda>i. statetensor_to_single_expectation (G i) (qs ! i))
                             [0..<min (length gs) (length qs)])) st (scalar 0))"
proof -
  have "emap (\<lambda>(gns, qi). ebind (get_gate_tensor trunc_log2 gates gns) (\<lambda>g.
                    Inr (statetensor_to_single_expectation g qi))) (zip gs qs)
        = Inr (map (\<lambda>i. statetensor_to_single_expectation (G i) (qs ! i))
                 [0..<min (length gs) (length qs)])"
    using assms by (simp add: emap_eq_Inr_iff ebind_def)
  then show ?thesis
    by (simp add: get_statetensor_to_expectation_func_def ebind_def)
qed

text \<open>
  Claim C2. For sequences of terms, qubit index lists and coefficients of equal length,
  possibly empty, whose terms evaluate on the statetensor, the function built by
  \<open>get_statetensor_to_expectation_func\<close> returns the sum over \<open>i\<close> of
  \<open>coefficients[i]\<close> times the \<open>i\<close>-th single-term expectation, added up from \<open>0\<close> in
  positional order; for two terms the result is \<open>a * evalA + b * evalB\<close>, and with no
  term it is \<open>0\<close>, not an error.
\<close>

theorem combiner_weighted_sum:
  assumes "length qs = length gs" and "length cs = length gs"
    and "\<forall>i<length gs. get_gate_tensor trunc_log2 gates (gs ! i) = Inr (G i)"
    and "\<forall>i<length gs. statetensor_to_single_expectation (G i) (qs ! i) st = Inr (scalar (e i))"
  shows "(\<exists>F. get_statetensor_to_expectation_func trunc_log2 gates gs qs cs = Inr F
            \<and> F st = Inr (scalar (foldl (+) 0 (map (\<lambda>i. cs ! i * e i) [0..<length gs])))
            \<and> F st = Inr (scalar (\<Sum>i<length gs. cs ! i * e i)))
       \<and> (length gs = 2 \<longrightarrow>
            (\<exists>F. get_statetensor_to_expectation_func trunc_log2 gates gs qs cs = Inr F
               \<and> F st = Inr (scalar (cs ! 0 * e 0 + cs ! 1 * e 1))))
       \<and> (\<exists>F. get_statetensor_to_expectation_func trunc_log2 gates [] [] [] = Inr F
            \<and> F st = Inr (scalar 0))"
proof -
  let ?n = "length gs"
  let ?fs = "map (\<lambda>i. statetensor_to_single_expectation (G i) (qs ! i)) [0..<?n]"
  let ?F = "\<lambda>st. expectation_loop (zip cs ?fs) st (scalar 0)"
  have b: "get_statetensor_to_expectation_func trunc_log2 gates gs qs cs = Inr ?F"
    using combiner_build[of gs qs trunc_log2 gates G cs] assms(1,3) by simp
  have z: "zip cs (map e [0..<?n]) = map (\<lambda>i. (cs ! i, e i)) [0..<?n]"
    using assms(2) by (auto intro!: nth_equalityI)
  have "?F st = Inr (scalar (foldl (+) 0 (map (\<lambda>(c, e). c * e) (zip cs (map e [0..<?n])))))"
    using assms by (intro expectation_loop_scalars) auto
  then have v: "?F st = Inr (scalar (foldl (+) 0 (map (\<lambda>i. cs ! i * e i) [0..<?n])))"
    by (simp add: z comp_def)
  have s: "foldl (+) 0 (map (\<lambda>i. cs ! i * e i) [0..<?n]) = (\<Sum>i<?n. cs ! i * e i)"
    by (simp add: foldl_add_sum)
  have two: "(\<Sum>i<?n. cs ! i * e i) = cs ! 0 * e 0 + cs ! 1 * e 1" if "?n = 2"
    using that by (simp add: lessThan_Suc numeral_2_eq_2)
  have zero: "\<exists>F. get_statetensor_to_expectation_func trunc_log2 gates [] [] [] = Inr F \<and> F st = Inr (scalar 0)"
    by (simp add: get_statetensor_to_expectation_func_def ebind_def)
  show ?thesis using b v s two zero by auto
qed


theorem combiner_weighted_sum_witness:
  "length [[0], [0::int]] = length [[Name ''Z''], [Name ''X'']]
   \<and> length [2, 3::real] = length [[Name ''Z''], [Name ''X'']]
   \<and> get_gate_tensor exact_log2 gates_example [Name ''Z''] = Inr pauli_z
   \<and> get_gate_tensor exact_log2 gates_example [Name ''X''] = Inr pauli_x
   \<and> statetensor_to_single_expectation pauli_z [0] psi_example = Inr (scalar (- 7 / 25))
   \<and> statetensor_to_single_expectation pauli_x [0] psi_example = Inr (scalar (24 / 25))
   \<and> (\<exists>F. get_statetensor_to_expectation_func exact_log2 gates_example
              [[Name ''Z''], [Name ''X'']] [[0], [0]] [2, 3] = Inr F
          \<and> F psi_example = Inr (scalar (58 / 25)))"
proof -
  let ?gs = "[[Name ''Z''], [Name ''X'']]"
  let ?G = "\<lambda>i::nat. if i = 0 then pauli_z else pauli_x"
  let ?e = "\<lambda>i::nat. if i = 0 then - 7 / 25 else (24 / 25 :: real)"
  have gz: "get_gate_tensor exact_log2 gates_example [Name ''Z''] = Inr pauli_z" by code_simp
  have gx: "get_gate_tensor exact_log2 gates_example [Name ''X''] = Inr pauli_x" by code_simp
  have ez: "statetensor_to_single_expectation pauli_z [0] psi_example = Inr (scalar (- 7 / 25))"
    by code_simp
  have ex: "statetensor_to_single_expectation pauli_x [0] psi_example = Inr (scalar (24 / 25))"
    by code_simp
  have h3: "\<forall>i<length ?gs. get_gate_tensor exact_log2 gates_example (?gs ! i) = Inr (?G i)"
    using gz gx by (simp add: less_Suc_eq)
  have h4: "\<forall>i<length ?gs. statetensor_to_single_expectation (?G i) ([[0], [0]] ! i) psi_example
              = Inr (scalar (?e i))"
    using ez ex by (simp add: less_Suc_eq)
  have "\<exists>F. get_statetensor_to_expectation_func exact_log2 gates_example ?gs [[0], [0]] [2, 3] = Inr F
          \<and> F psi_example = Inr (scalar (\<Sum>i<length ?gs. [2, 3] ! i * ?e i))"
    using combiner_weighted_sum [of "[[0], [0]]" ?gs "[2, 3]" exact_log2 gates_example ?G psi_example ?e, OF _ _ h3 h4]
    by simp
  moreover have "(\<Sum>i<length ?gs. [2, 3] ! i * ?e i) = 58 / 25"
    by (simp add: lessThan_Suc)
  ultimately show ?thesis using gz gx ez ex by simp
qed

text \<open>
  Claim C8 says that sequences of terms, qubit index lists and coefficients of different
  lengths are rejected with an error. The source pairs them with \<open>zip\<close>, which stops at
  the shortest: one term with two coefficients is accepted and evaluated.
\<close>

theorem combiner_length_mismatch_counterexample:
  "length [2, 3::real] \<noteq> length [[Name ''Z'']]
   \<and> \<not> isl (get_statetensor_to_expectation_func exact_log2 gates_example [[Name ''Z'']] [[0]] [2, 3])
   \<and> ebind (get_statetensor_to_expectation_func exact_log2 gates_example [[Name ''Z'']] [[0]] [2, 3])
        (\<lambda>F. F psi_example) = Inr (scalar (- 14 / 25))"
  by code_simp

lemma zip_take_min:
  "n = min (length xs) (length ys) \<Longrightarrow> zip (take n xs) (take n ys) = zip xs ys"
  by (simp add: take_zip[symmetric])

text \<open>
  Claim C8, amended. Lengths that differ raise no error of their own: whenever the gate
  tensors of the first \<open>min (#terms) (#qubit lists)\<close> terms can be assembled,
  \<open>get_statetensor_to_expectation_func\<close> returns a function, and it is the function
  built from the three sequences cut to their shortest common length.
\<close>

theorem combiner_truncates:
  assumes "\<forall>i<min (length gs) (length qs). get_gate_tensor trunc_log2 gates (gs ! i) = Inr (G i)"
    and "n = min (min (length gs) (length qs)) (length cs)"
  shows "\<exists>F. get_statetensor_to_expectation_func trunc_log2 gates gs qs cs = Inr F
           \<and> get_statetensor_to_expectation_func trunc_log2 gates (take n gs) (take n qs) (take n cs) = Inr F"
proof -
  let ?m = "min (length gs) (length qs)"
  let ?h = "\<lambda>q i. statetensor_to_single_expectation (G i) (q ! i)"
  have n: "n \<le> ?m" "n \<le> length cs" "min (length (take n gs)) (length (take n qs)) = n"
    using assms(2) by auto
  have 1: "get_statetensor_to_expectation_func trunc_log2 gates gs qs cs =
           Inr (\<lambda>st. expectation_loop (zip cs (map (?h qs) [0..<?m])) st (scalar 0))"
    using assms(1) by (rule combiner_build)
  have "\<forall>i<min (length (take n gs)) (length (take n qs)).
          get_gate_tensor trunc_log2 gates (take n gs ! i) = Inr (G i)"
    using assms(1) n by simp
  then have 2: "get_statetensor_to_expectation_func trunc_log2 gates (take n gs) (take n qs) (take n cs) =
           Inr (\<lambda>st. expectation_loop (zip (take n cs) (map (?h (take n qs)) [0..<n])) st (scalar 0))"
    using combiner_build[of "take n gs" "take n qs" trunc_log2 gates G "take n cs"] n(3) by simp
  have "map (?h (take n qs)) [0..<n] = take n (map (?h qs) [0..<?m])"
    using n by (auto simp add: take_map intro!: nth_equalityI)
  then have "zip (take n cs) (map (?h (take n qs)) [0..<n]) = zip cs (map (?h qs) [0..<?m])"
    using assms(2) by (simp add: zip_take_min)
  then show ?thesis using 1 2 by simp
qed

theorem combiner_truncates_witness:
  "get_gate_tensor exact_log2 gates_example [Name ''Z''] = Inr pauli_z
   \<and> (1::nat) = min (min (length [[Name ''Z'']]) (length [[0::int], [0]])) (length [2, 3::real])
   \<and> (\<exists>F. get_statetensor_to_expectation_func exact_log2 gates_example [[Name ''Z'']] [[0], [0]] [2, 3] = Inr F
          \<and> get_statetensor_to_expectation_func exact_log2 gates_example [[Name ''Z'']] [[0]] [2] = Inr F)"
proof -
  have gz: "get_gate_tensor exact_log2 gates_example [Name ''Z''] = Inr pauli_z" by code_simp
  have h: "\<forall>i<min (length [[Name ''Z'']]) (length [[0::int], [0]]).
             get_gate_tensor exact_log2 gates_example ([[Name ''Z'']] ! i) = Inr ((\<lambda>i. pauli_z) i)"
    using gz by simp
  show ?thesis
    using combiner_truncates [of "[[Name ''Z'']]" "[[0], [0]]" exact_log2 gates_example "\<lambda>i. pauli_z" 1 "[2, 3]", OF h]
      gz by simp
qed

section \<open>Properties of the sampler and of the inferred width\<close>

lemma sample_bitstrings_squeezed:
  assumes "sample_integers choice key st m = Inr (vector xs)"
    and "\<forall>v\<in>set xs. 0 \<le> v \<and> v < 2 ^ 31"
  shows "sample_bitstrings choice key st m =
           Inr (squeeze \<lparr>shape = [length xs, ndim st], data = concat (map (bits_row (ndim st)) xs)\<rparr>)"
  by (simp add: sample_bitstrings_def assms(1) ebind_def itb_vector[OF assms(2)])

text \<open>
  Claim C6 says that \<open>sample_bitstrings\<close> returns \<open>m\<close> bitstrings of length \<open>n\<close>, and its
  docstring gives the result the shape \<open>(n_samps, statetensor.ndim)\<close>. The \<open>squeeze\<close> at
  the end of \<open>integers_to_bitstrings\<close> removes every axis of length one: for one sample
  (the default \<open>n_samps\<close>) of a two-qubit state the sample axis is gone and the result
  has the shape \<open>(2)\<close>, not \<open>(1, 2)\<close>; for two samples of a one-qubit state the bit
  axis is gone and the result has the shape \<open>(2)\<close>, not \<open>(2, 1)\<close>.
\<close>

theorem sample_bitstrings_single_sample_shape:
  "sample_bitstrings choice_last key bell_state 1 = Inr \<lparr>shape = [2], data = [1, 1]\<rparr>
   \<and> [2] \<noteq> [1, ndim bell_state]
   \<and> sample_bitstrings choice_last key psi_example 2 = Inr \<lparr>shape = [2], data = [1, 1]\<rparr>
   \<and> [2] \<noteq> [2, ndim psi_example]"
proof -
  have l: "last (map int [0..<4]) = 3" by code_simp
  have s: "sample_integers choice_last key bell_state 1 = Inr (vector [3])"
    by (simp add: sample_integers_def choice_last_def arange_def nd_size_def bell_state_def vector_def l)
  have n: "ndim bell_state = 2" by (simp add: ndim_def bell_state_def)
  have b: "bits_row 2 3 = [1, 1]" by code_simp
  have one: "sample_bitstrings choice_last key bell_state 1 = Inr \<lparr>shape = [2], data = [1, 1]\<rparr>"
    using sample_bitstrings_squeezed [OF s] by (simp add: n b squeeze_def)
  have l': "last (map int [0..<2]) = 1" by code_simp
  have r: "replicate 2 (1::int) = [1, 1]" by (simp add: numeral_2_eq_2)
  have s': "sample_integers choice_last key psi_example 2 = Inr (vector [1, 1])"
    by (simp add: sample_integers_def choice_last_def arange_def nd_size_def psi_example_def
        vector_def l' r)
  have n': "ndim psi_example = 1" by (simp add: ndim_def psi_example_def)
  have b': "bits_row (Suc 0) 1 = [1]" by code_simp
  have two: "sample_bitstrings choice_last key psi_example 2 = Inr \<lparr>shape = [2], data = [1, 1]\<rparr>"
    using sample_bitstrings_squeezed [OF s'] by (simp add: n' b' squeeze_def)
  show ?thesis using one two by (simp add: n n')
qed

lemma ln2_ge_half: "1 / 2 \<le> ln (2::real)"
proof -
  have "exp (1 / 2 :: real) \<le> 1 + 1 / 2 + (1 / 2)\<^sup>2"
    by (rule exp_bound) simp_all
  also have "\<dots> \<le> 2" by (simp add: power2_eq_square)
  finally have "exp (1 / 2) \<le> (2::real)" .
  then show ?thesis using ln_ge_iff [of 2 "1 / 2"] by simp
qed

lemma log2_262143_lower: "18 - 1 / 100000 < log 2 (262143::real)"
proof -
  let ?x = "1 / 262144 :: real"
  have "- ?x - 2 * ?x\<^sup>2 \<le> ln (1 - ?x)"
    by (rule ln_one_minus_pos_lower_bound) simp_all
  moreover have "ln (1 - ?x) = ln 262143 - ln (262144::real)"
  proof -
    have "1 - ?x = 262143 / 262144" by simp
    then show ?thesis by (simp add: ln_div)
  qed
  moreover have "ln (262144::real) = 18 * ln 2"
  proof -
    have "(262144::real) = 2 ^ 18" by simp
    then show ?thesis by (simp only: ln_realpow)
  qed
  moreover have "- (1 / 100000) * ln (2::real) < - ?x - 2 * ?x\<^sup>2"
  proof -
    have "- (1 / 100000) * ln (2::real) \<le> - (1 / 100000) * (1 / 2)"
      using ln2_ge_half by simp
    also have "\<dots> < - ?x - 2 * ?x\<^sup>2" by (simp add: power2_eq_square)
    finally show ?thesis .
  qed
  ultimately have "(18 - 1 / 100000) * ln 2 < ln (262143::real)"
    by (simp add: algebra_simps)
  moreover have "0 < ln (2::real)" by simp
  ultimately show ?thesis
    by (simp add: log_def pos_less_divide_eq)
qed

lemma log2_262144: "log 2 (262144::real) = 18"
proof -
  have "log 2 ((2::real) ^ 18) = 18" by (subst log_pow_cancel) simp_all
  then show ?thesis by simp
qed

lemma log2_262143_upper: "log 2 (262143::real) < 18"
proof -
  have "log 2 (262143::real) < log 2 262144" by simp
  then show ?thesis by (simp only: log2_262144)
qed

text \<open>
  Claim C7 says that the width inferred without \<open>nbits\<close> is \<open>ceil(log2(max + 1))\<close> and at
  least one bit. For a maximum of \<open>0\<close> the logarithm is minus infinity and the inferred
  width is the least 32-bit integer, not \<open>1\<close>; for a maximum of \<open>2 ^ 18 - 1\<close> the added
  \<open>1e-5\<close> lifts the logarithm over \<open>18\<close> and the inferred width is \<open>19\<close>, not \<open>18\<close>.
\<close>

theorem inferred_width_not_minimal:
  "infer_nbits (vector [0]) = Inr (- (2 ^ 31)) \<and> minimal_width 0 = 1
   \<and> infer_nbits (vector [262143]) = Inr 19 \<and> minimal_width 262143 = 18"
proof -
  have a: "infer_nbits (vector [0]) = Inr (- (2 ^ 31))"
    by (simp add: infer_nbits_def vector_def log2_f_def add_f_def ceil_f_def astype_int_def)
  have b: "minimal_width 0 = 1" by (simp add: minimal_width_def)
  have "\<lceil>log 2 (262143::real) + 1 / 100000\<rceil> = 19"
    using log2_262143_lower log2_262143_upper by (intro ceiling_unique) simp_all
  then have c: "infer_nbits (vector [262143]) = Inr 19"
    by (simp add: infer_nbits_def vector_def log2_f_def add_f_def ceil_f_def astype_int_def)
  have d: "minimal_width 262143 = 18" by (simp add: minimal_width_def log2_262144)
  show ?thesis using a b c d by simp
qed

section \<open>Properties of the gate tensor assembler\<close>

lemma length_indices: "length (indices shp) = prod_list shp"
proof (induction shp)
  case Nil
  show ?case by simp
next
  case (Cons d ds)
  have "length (concat (map (\<lambda>i. map ((#) i) (indices ds)) [0..<d])) = d * prod_list ds"
    by (simp add: length_concat comp_def Cons.IH sum_list_triv)
  then show ?case by simp
qed

lemma sum_list_const_upt:
  "\<forall>j<d. g j = (p::nat) \<Longrightarrow> (\<Sum>x\<leftarrow>[0..<d]. g x) = d * p"
  by (induction d) auto

lemma concat_blocks_nth:
  assumes "\<forall>j<d. length (f j) = p" and "i < d" and "r < p"
  shows "concat (map f [0..<d]) ! (i * p + r) = f i ! r"
  using assms
proof (induction d)
  case 0
  then show ?case by simp
next
  case (Suc d)
  have len: "length (concat (map f [0..<d])) = d * p"
    using Suc.prems(1) by (simp add: length_concat comp_def sum_list_const_upt)
  show ?case
  proof (cases "i < d")
    case True
    then have "i * p + r < d * p"
    proof -
      have "i * p + r < i * p + p" using Suc.prems(3) by simp
      also have "\<dots> = Suc i * p" by simp
      also have "\<dots> \<le> d * p" using True by (intro mult_le_mono1) simp
      finally show ?thesis .
    qed
    then show ?thesis using Suc True by (simp add: nth_append len)
  next
    case False
    then have "i = d" using Suc.prems(2) by simp
    then show ?thesis by (simp add: nth_append len)
  qed
qed

lemma indices_ravel:
  "list_all2 (<) idx shp \<Longrightarrow> ravel shp idx < prod_list shp \<and> indices shp ! ravel shp idx = idx"
proof (induction shp arbitrary: idx)
  case Nil
  then show ?case by simp
next
  case (Cons d ds)
  from Cons.prems obtain i js where idx: "idx = i # js" and i: "i < d" and js: "list_all2 (<) js ds"
    by (auto simp add: list_all2_Cons2)
  let ?p = "prod_list ds"
  have r: "ravel ds js < ?p" and n: "indices ds ! ravel ds js = js"
    using Cons.IH[OF js] by simp_all
  have "i * ?p + ravel ds js < i * ?p + ?p" using r by simp
  also have "\<dots> = Suc i * ?p" by simp
  also have "\<dots> \<le> d * ?p" using i by (intro mult_le_mono1) simp
  finally have bound: "i * ?p + ravel ds js < d * ?p" .
  have "concat (map (\<lambda>i. map ((#) i) (indices ds)) [0..<d]) ! (i * ?p + ravel ds js)
          = map ((#) i) (indices ds) ! ravel ds js"
    using i r by (intro concat_blocks_nth) (simp_all add: length_indices)
  also have "\<dots> = i # js" using r n by (simp add: length_indices)
  finally show ?case using bound by (simp add: idx)
qed

lemma nd_at_build:
  "list_all2 (<) idx shp \<Longrightarrow> nd_at (build shp f) idx = f idx"
  using indices_ravel[of idx shp] by (simp add: nd_at_def build_def length_indices)

lemma shape_build: "shape (build shp f) = shp"
  by (simp add: build_def)


lemma bits_to_nat_snoc: "bits_to_nat (bs @ [b]) = 2 * bits_to_nat bs + b"
  by (simp add: bits_to_nat_def)


lemma bits_to_nat_single: "bits_to_nat [b] = b"
  by (simp add: bits_to_nat_def)

lemma bits_to_nat_bound:
  "\<forall>b\<in>set bs. b < 2 \<Longrightarrow> bits_to_nat bs < 2 ^ length bs"
proof (induction bs rule: rev_induct)
  case Nil
  show ?case by (simp add: bits_to_nat_def)
next
  case (snoc b bs)
  then have "bits_to_nat bs < 2 ^ length bs" and "b < 2" by simp_all
  then show ?case by (simp add: bits_to_nat_snoc)
qed




lemma kron_2d:
  assumes "shape a = [ra, ca]" and "shape b = [rb, cb]"
  shows "shape (kron a b) = [ra * rb, ca * cb]"
    and "r < ra * rb \<Longrightarrow> c < ca * cb \<Longrightarrow>
         nd_at (kron a b) [r, c] = nd_at a [r div rb, c div cb] * nd_at b [r mod rb, c mod cb]"
proof -
  have k: "kron a b = build [ra * rb, ca * cb]
             (\<lambda>idx. nd_at a (map (\<lambda>(i, d). i div d) (zip idx [rb, cb]))
                   * nd_at b (map (\<lambda>(i, d). i mod d) (zip idx [rb, cb])))"
  proof -
    have e: "a\<lparr>shape := [ra, ca]\<rparr> = a" "b\<lparr>shape := [rb, cb]\<rparr> = b"
      using assms by simp_all
    show ?thesis by (simp add: kron_def ndim_def Let_def assms e)
  qed
  show "shape (kron a b) = [ra * rb, ca * cb]"
    by (simp add: k shape_build)
  show "nd_at (kron a b) [r, c] = nd_at a [r div rb, c div cb] * nd_at b [r mod rb, c mod cb]"
    if "r < ra * rb" "c < ca * cb"
    unfolding k using that by (subst nd_at_build) simp_all
qed


lemma kron_chain:
  assumes "\<forall>M\<in>set (M0 # rest). shape M = [2, 2]"
  shows "shape (foldl kron M0 rest) = [2 ^ Suc (length rest), 2 ^ Suc (length rest)]
       \<and> (\<forall>os is. length os = Suc (length rest) \<and> length is = Suc (length rest)
             \<and> (\<forall>b\<in>set os. b < 2) \<and> (\<forall>b\<in>set is. b < 2) \<longrightarrow>
           nd_at (foldl kron M0 rest) [bits_to_nat os, bits_to_nat is]
             = (\<Prod>j<Suc (length rest). nd_at ((M0 # rest) ! j) [os ! j, is ! j]))"
  using assms
proof (induction rest rule: rev_induct)
  case Nil
  have "nd_at M0 [bits_to_nat os, bits_to_nat is] = nd_at M0 [os ! 0, is ! 0]"
    if "length os = Suc 0" "length is = Suc 0" for os "is"
  proof -
    from that obtain o1 i1 where "os = [o1]" "is = [i1]"
      by (auto simp add: length_Suc_conv)
    then show ?thesis by (simp add: bits_to_nat_single)
  qed
  then show ?case using Nil by simp
next
  case (snoc M rest)
  let ?n = "Suc (length rest)"
  let ?F = "foldl kron M0 rest"
  have shF: "shape ?F = [2 ^ ?n, 2 ^ ?n]"
    and elF: "\<And>os is. length os = ?n \<Longrightarrow> length is = ?n \<Longrightarrow> \<forall>b\<in>set os. b < 2 \<Longrightarrow>
               \<forall>b\<in>set is. b < 2 \<Longrightarrow>
               nd_at ?F [bits_to_nat os, bits_to_nat is]
                 = (\<Prod>j<?n. nd_at ((M0 # rest) ! j) [os ! j, is ! j])"
  proof -
    have pre: "\<forall>M\<in>set (M0 # rest). shape M = [2, 2]" using snoc.prems by simp
    note IH = snoc.IH[OF pre]
    show "shape ?F = [2 ^ ?n, 2 ^ ?n]" using IH by (rule conjunct1)
    show "nd_at ?F [bits_to_nat os, bits_to_nat is]
                 = (\<Prod>j<?n. nd_at ((M0 # rest) ! j) [os ! j, is ! j])"
      if "length os = ?n" "length is = ?n" "\<forall>b\<in>set os. b < 2" "\<forall>b\<in>set is. b < 2" for os "is" :: "nat list"
      using IH[THEN conjunct2, rule_format, of os "is"] that by blast
  qed
  have shM: "shape M = [2, 2]" using snoc.prems by simp
  have sh: "shape (kron ?F M) = [2 ^ ?n * 2, 2 ^ ?n * 2]"
    using kron_2d(1)[OF shF shM] .
  have el: "nd_at (kron ?F M) [bits_to_nat os, bits_to_nat is]
             = (\<Prod>j<Suc ?n. nd_at ((M0 # rest @ [M]) ! j) [os ! j, is ! j])"
    if len: "length os = Suc ?n" "length is = Suc ?n"
      and bits: "\<forall>b\<in>set os. b < 2" "\<forall>b\<in>set is. b < 2" for os "is"
  proof -
    from len obtain os' o1 where os: "os = os' @ [o1]" and los: "length os' = ?n"
      by (metis length_Suc_conv_rev)
    from len obtain is' i1 where "is": "is = is' @ [i1]" and lis: "length is' = ?n"
      by (metis length_Suc_conv_rev)
    have b: "o1 < 2" "i1 < 2" "\<forall>b\<in>set os'. b < 2" "\<forall>b\<in>set is'. b < 2"
      using bits os "is" by simp_all
    have r: "bits_to_nat os = 2 * bits_to_nat os' + o1" "bits_to_nat is = 2 * bits_to_nat is' + i1"
      by (simp_all add: os "is" bits_to_nat_snoc)
    have bo: "bits_to_nat os' < 2 ^ ?n" "bits_to_nat is' < 2 ^ ?n"
      using bits_to_nat_bound[OF b(3)] bits_to_nat_bound[OF b(4)] los lis by simp_all
    have lt: "bits_to_nat os < 2 ^ ?n * 2" "bits_to_nat is < 2 ^ ?n * 2"
      using bo b r by simp_all
    have dm: "bits_to_nat os div 2 = bits_to_nat os'" "bits_to_nat os mod 2 = o1"
      "bits_to_nat is div 2 = bits_to_nat is'" "bits_to_nat is mod 2 = i1"
      using r b by simp_all
    have "nd_at (kron ?F M) [bits_to_nat os, bits_to_nat is]
            = nd_at ?F [bits_to_nat os', bits_to_nat is'] * nd_at M [o1, i1]"
      using kron_2d(2)[OF shF shM lt] by (simp only: dm)
    also have "nd_at ?F [bits_to_nat os', bits_to_nat is']
                 = (\<Prod>j<?n. nd_at ((M0 # rest) ! j) [os' ! j, is' ! j])"
      using elF[OF los lis b(3) b(4)] .
    also have "(\<Prod>j<?n. nd_at ((M0 # rest) ! j) [os' ! j, is' ! j])
                 = (\<Prod>j<?n. nd_at ((M0 # rest @ [M]) ! j) [os ! j, is ! j])"
    proof (rule prod.cong[OF refl])
      fix j assume "j \<in> {..<?n}"
      then have j: "j < ?n" by simp
      have "(M0 # rest @ [M]) ! j = ((M0 # rest) @ [M]) ! j" by simp
      also have "\<dots> = (M0 # rest) ! j" using j by (subst nth_append) simp
      finally have m: "(M0 # rest @ [M]) ! j = (M0 # rest) ! j" .
      have "os ! j = os' ! j" "is ! j = is' ! j"
        using j los lis by (simp_all add: os "is" nth_append)
      then show "nd_at ((M0 # rest) ! j) [os' ! j, is' ! j]
                  = nd_at ((M0 # rest @ [M]) ! j) [os ! j, is ! j]"
        by (simp only: m)
    qed
    also have "nd_at M [o1, i1] = nd_at ((M0 # rest @ [M]) ! ?n) [os ! ?n, is ! ?n]"
    proof -
      have "(M0 # rest @ [M]) ! ?n = M" by (simp add: nth_append)
      moreover have "os ! ?n = o1" "is ! ?n = i1"
        using los lis by (simp_all add: os "is" nth_append)
      ultimately show ?thesis by (simp only:)
    qed
    finally show ?thesis by (simp only: prod.lessThan_Suc)
  qed
  have f: "foldl kron M0 (rest @ [M]) = kron ?F M" by simp
  have l: "length (rest @ [M]) = ?n" by simp
  show ?case
    unfolding f l
  proof (intro conjI allI impI)
    show "shape (kron ?F M) = [2 ^ Suc ?n, 2 ^ Suc ?n]" using sh by simp
  next
    fix os "is" :: "nat list"
    assume a: "length os = Suc ?n \<and> length is = Suc ?n
                \<and> (\<forall>b\<in>set os. b < 2) \<and> (\<forall>b\<in>set is. b < 2)"
    show "nd_at (kron ?F M) [bits_to_nat os, bits_to_nat is]
             = (\<Prod>j<Suc ?n. nd_at ((M0 # rest @ [M]) ! j) [os ! j, is ! j])"
      using a by (intro el) simp_all
  qed
qed



lemma reshape_binary_single:
  assumes "shape M = [2, 2]" and "trunc_log2 4 = 2"
  shows "reshape_binary trunc_log2 M = Inr M"
proof -
  have r: "replicate 2 (2::nat) = [2, 2]" by (simp add: numeral_2_eq_2)
  show ?thesis using assms by (cases M) (simp add: reshape_binary_def nd_size_def r)
qed


lemma reshape_binary_inexact:
  assumes "shape F = [2 ^ k, 2 ^ k]" and "trunc_log2 (2 ^ (2 * k)) = int (2 * k) - 1"
    and "0 < k"
  shows "reshape_binary trunc_log2 F = Inl TypeError"
proof -
  have sz: "nd_size F = 2 ^ (2 * k)"
    using assms(1) by (simp add: nd_size_def power_add mult_2)
  have n: "nat (int (2 * k) - 1) = 2 * k - 1" by simp
  have "(2::nat) ^ (2 * k - 1) < 2 ^ (2 * k)"
    using assms(3) by (intro power_strict_increasing) simp_all
  then have "(2::nat) ^ nat (int (2 * k) - 1) \<noteq> 2 ^ (2 * k)"
    unfolding n by (rule less_imp_neq)
  then show ?thesis
    unfolding reshape_binary_def sz assms(2) by simp
qed





text \<open>
  The logarithm is computed in single precision and truncated. Where it falls below the
  exact value, as a truncated \<open>25\<close> at the size \<open>2 ^ 26\<close> of thirteen gates, the final
  reshape asks for half the elements and raises.
\<close>

lemma gate_tensor_inexact_logarithm:
  assumes "gate_seq \<noteq> []"
    and "\<forall>j<length gate_seq. resolve_gate gates (gate_seq ! j) = Inr (M j) \<and> shape (M j) = [2, 2]"
    and "trunc_log2 4 = 2"
    and "trunc_log2 (2 ^ (2 * length gate_seq)) = int (2 * length gate_seq) - 1"
  shows "get_gate_tensor trunc_log2 gates gate_seq = Inl TypeError"
proof -
  let ?k = "length gate_seq"
  let ?Ms = "map M [0..<?k]"
  obtain k' where k: "?k = Suc k'" using assms(1) by (cases gate_seq) auto
  let ?rest = "map M [1..<?k]"
  have Ms: "?Ms = M 0 # ?rest" by (simp add: k upt_conv_Cons del: upt_Suc)
  have lrest: "Suc (length ?rest) = ?k" by (simp add: k)
  have e1: "emap (resolve_gate gates) gate_seq = Inr ?Ms"
    using assms(2) by (simp add: emap_eq_Inr_iff)
  have e2: "emap (reshape_binary trunc_log2) ?Ms = Inr ?Ms"
    using assms(2,3) by (simp add: emap_eq_Inr_iff reshape_binary_single)
  let ?F = "foldl kron (M 0) ?rest"
  have "\<forall>A\<in>set ?Ms. shape A = [2, 2]"
    using assms(2) by simp
  then have all22: "\<forall>A\<in>set (M 0 # ?rest). shape A = [2, 2]"
    by (simp only: Ms)
  note ch = kron_chain[OF all22]
  have shF: "shape ?F = [2 ^ ?k, 2 ^ ?k]"
    using ch[THEN conjunct1] by (simp only: lrest)
  have e2': "emap (reshape_binary trunc_log2) ?Ms = Inr (M 0 # ?rest)"
    using e2 by (simp only: Ms[symmetric])
  show ?thesis
    unfolding get_gate_tensor_def e1 ebind_def sum.case e2' list.case
    using assms(1) by (intro reshape_binary_inexact[of _ _ trunc_log2, OF shF assms(4)]) simp
qed

section \<open>Properties of the single-term expectation evaluator\<close>

lemma canonicalize_nonneg:
  "\<forall>q\<in>set qs. q < n \<Longrightarrow> emap (canonicalize_axis n) (map int qs) = Inr qs"
  by (induction qs) (auto simp add: ebind_def canonicalize_axis_def)

lemma canonicalize_last:
  assumes "k \<le> r"
  shows "emap (canonicalize_axis r) (map (\<lambda>j. - int k + int j) [0..<k]) = Inr [r - k..<r]"
proof -
  have "length [r - k..<r] = length (map (\<lambda>j. - int k + int j) [0..<k])"
    using assms by simp
  moreover have "canonicalize_axis r (map (\<lambda>j. - int k + int j) [0..<k] ! j) = Inr ([r - k..<r] ! j)"
    if "j < k" for j
  proof -
    have "nat (- int k + int j + int r) = r - k + j" using that assms by linarith
    then show ?thesis using that assms by (simp add: canonicalize_axis_def)
  qed
  ultimately show ?thesis by (simp add: emap_eq_Inr_iff)
qed

lemma merge_index_spec:
  "merge_index ps m (map g (filter (\<lambda>p. m p = None) ps))
     = map (\<lambda>p. case m p of Some v \<Rightarrow> v | None \<Rightarrow> g p) ps"
  by (induction ps) (auto split: option.splits)

lemma indices_valid:
  "c \<in> set (indices shp) \<Longrightarrow> list_all2 (<) c shp"
proof (induction shp arbitrary: c)
  case Nil
  then show ?case by simp
next
  case (Cons d ds)
  then obtain i c' where "c = i # c'" "i < d" "c' \<in> set (indices ds)" by auto
  then show ?case using Cons.IH by simp
qed

lemma indices_length: "c \<in> set (indices shp) \<Longrightarrow> length c = length shp"
  using indices_valid list_all2_lengthD by blast

lemma free_axes_last: "free_axes (2 * k) [k..<2 * k] = [0..<k]"
proof -
  have "[0..<2 * k] = [0..<k] @ [k..<2 * k]"
    using upt_add_eq_append[of 0 k k] by (simp add: mult_2)
  then show ?thesis by (simp add: free_axes_def)
qed

lemma operand_index_gate:
  assumes "length u = k" and "length c = k"
  shows "operand_index (2 * k) [k..<2 * k] c u = u @ c"
proof -
  let ?m = "map_of (zip [k..<2 * k] c)"
  have none: "?m p = None \<longleftrightarrow> \<not> (k \<le> p \<and> p < 2 * k)" for p
    using assms by (simp add: map_of_zip_is_None)
  have some: "?m p = Some (c ! (p - k))" if "k \<le> p" "p < 2 * k" for p
  proof -
    have "p - k < length [k..<2 * k]" using that by simp
    moreover have "distinct [k..<2 * k]" by simp
    moreover have "length [k..<2 * k] = length c" using assms by simp
    ultimately have "?m ([k..<2 * k] ! (p - k)) = Some (c ! (p - k))"
      by (intro map_of_zip_nth) simp_all
    then show ?thesis using that by simp
  qed
  have f: "filter (\<lambda>p. ?m p = None) [0..<2 * k] = [0..<k]"
    using free_axes_last[of k] assms
    by (simp add: free_axes_def map_of_zip_is_None cong: filter_cong)
  have u: "u = map ((!) u) [0..<k]" using map_nth[of u] assms by simp
  have "operand_index (2 * k) [k..<2 * k] c u
          = merge_index [0..<2 * k] ?m (map ((!) u) (filter (\<lambda>p. ?m p = None) [0..<2 * k]))"
    unfolding operand_index_def f using u by simp
  also have "\<dots> = map (\<lambda>p. case ?m p of Some v \<Rightarrow> v | None \<Rightarrow> u ! p) [0..<2 * k]"
    by (rule merge_index_spec)
  also have "\<dots> = u @ c"
  proof (rule nth_equalityI)
    show "length (map (\<lambda>p. case ?m p of Some v \<Rightarrow> v | None \<Rightarrow> u ! p) [0..<2 * k]) = length (u @ c)"
      using assms by simp
  next
    fix p assume "p < length (map (\<lambda>p. case ?m p of Some v \<Rightarrow> v | None \<Rightarrow> u ! p) [0..<2 * k])"
    then have p: "p < 2 * k" by simp
    show "map (\<lambda>p. case ?m p of Some v \<Rightarrow> v | None \<Rightarrow> u ! p) [0..<2 * k] ! p = (u @ c) ! p"
    proof (cases "p < k")
      case True
      then have mp: "?m p = None" using none by simp
      have "[0..<2 * k] ! p = p" using p by simp
      then show ?thesis using p True assms
        by (simp add: nth_append mp del: map_of_eq_None_iff)
    next
      case False
      then have mp: "?m p = Some (c ! (p - k))" using some p by simp
      show ?thesis using p False assms by (simp add: nth_append mp)
    qed
  qed
  finally show ?thesis .
qed


lemma length_replace_at: "length (replace_at i qs c) = length i"
proof -
  have "length (fold (\<lambda>(q, v) j. j[q := v]) ps i) = length i" for ps :: "(nat \<times> nat) list"
    by (induction ps arbitrary: i) auto
  then show ?thesis by (simp add: replace_at_def)
qed

lemma replace_at_nth:
  assumes "distinct qs" and "length c = length qs" and "\<forall>q\<in>set qs. q < length i" and "p < length i"
  shows "replace_at i qs c ! p = (case map_of (zip qs c) p of Some v \<Rightarrow> v | None \<Rightarrow> i ! p)"
  using assms
proof (induction qs arbitrary: c i)
  case Nil
  then show ?case by (simp add: replace_at_def)
next
  case (Cons q qs)
  then obtain v c' where c: "c = v # c'" by (cases c) auto
  have step: "replace_at i (q # qs) (v # c') = replace_at (i[q := v]) qs c'"
    by (simp add: replace_at_def)
  have IH: "replace_at (i[q := v]) qs c' ! p
              = (case map_of (zip qs c') p of Some w \<Rightarrow> w | None \<Rightarrow> i[q := v] ! p)"
    using Cons.prems c by (intro Cons.IH) simp_all
  show ?case
  proof (cases "p = q")
    case True
    have "q \<notin> set qs" using Cons.prems(1) by simp
    then have "map_of (zip qs c') q = None"
      using Cons.prems(2) c by (simp add: map_of_zip_is_None)
    then show ?thesis using True IH Cons.prems(4) by (simp add: step c)
  next
    case False
    then show ?thesis using IH by (simp add: step c split: option.splits)
  qed
qed

lemma operand_index_state:
  assumes "length c = length qs" and "distinct qs" and "\<forall>q\<in>set qs. q < n" and "length i = n"
  shows "operand_index n qs c (map ((!) i) (free_axes n qs)) = replace_at i qs c"
proof -
  let ?m = "map_of (zip qs c)"
  have f: "free_axes n qs = filter (\<lambda>p. ?m p = None) [0..<n]"
    using assms(1) by (simp add: free_axes_def)
  have "operand_index n qs c (map ((!) i) (free_axes n qs))
          = map (\<lambda>p. case ?m p of Some v \<Rightarrow> v | None \<Rightarrow> i ! p) [0..<n]"
    unfolding operand_index_def f by (rule merge_index_spec)
  also have "\<dots> = replace_at i qs c"
  proof (rule nth_equalityI)
    show "length (map (\<lambda>p. case ?m p of Some v \<Rightarrow> v | None \<Rightarrow> i ! p) [0..<n]) = length (replace_at i qs c)"
      using assms(4) by (simp add: length_replace_at)
  next
    fix p assume "p < length (map (\<lambda>p. case ?m p of Some v \<Rightarrow> v | None \<Rightarrow> i ! p) [0..<n])"
    then have p: "p < n" by simp
    have "replace_at i qs c ! p = (case ?m p of Some v \<Rightarrow> v | None \<Rightarrow> i ! p)"
      using assms p by (intro replace_at_nth) simp_all
    then show "map (\<lambda>p. case ?m p of Some v \<Rightarrow> v | None \<Rightarrow> i ! p) [0..<n] ! p = replace_at i qs c ! p"
      using p by (simp split: option.splits)
  qed
  finally show ?thesis .
qed


lemma py_insert_nth:
  assumes "d \<le> length R"
  shows "py_insert R d s ! d = s"
    and "p < d \<Longrightarrow> py_insert R d s ! p = R ! p"
    and "d < p \<Longrightarrow> p \<le> length R \<Longrightarrow> py_insert R d s ! p = R ! (p - 1)"
    and "length (py_insert R d s) = Suc (length R)"
  using assms by (auto simp add: py_insert_def nth_append min_def nth_Cons')

lemma insert_at_sorted_positions:
  assumes "sorted (map fst ps)" and "distinct (map fst ps)"
    and "\<forall>j<length ps. fst (ps ! j) \<le> length base + j"
  shows "length (foldl (\<lambda>perm (dest, s). py_insert perm dest s) base ps) = length base + length ps
       \<and> (\<forall>x\<in>set ps. foldl (\<lambda>perm (dest, s). py_insert perm dest s) base ps ! fst x = snd x)
       \<and> map ((!) (foldl (\<lambda>perm (dest, s). py_insert perm dest s) base ps))
            (filter (\<lambda>p. p \<notin> fst ` set ps) [0..<length base + length ps]) = base"
  using assms
proof (induction ps rule: rev_induct)
  case Nil
  show ?case by (simp add: map_nth)
next
  case (snoc x ps)
  obtain d s where x: "x = (d, s)" by (cases x)
  let ?R = "foldl (\<lambda>perm (dest, s). py_insert perm dest s) base ps"
  let ?L = "length base + length ps"
  let ?D = "fst ` set ps"
  have pre: "sorted (map fst ps)" "distinct (map fst ps)"
    "\<forall>j<length ps. fst (ps ! j) \<le> length base + j"
  proof -
    show "sorted (map fst ps)" using snoc.prems(1) by (simp add: sorted_append)
    show "distinct (map fst ps)" using snoc.prems(2) by simp
    show "\<forall>j<length ps. fst (ps ! j) \<le> length base + j"
    proof (intro allI impI)
      fix j assume j: "j < length ps"
      then have "fst ((ps @ [x]) ! j) \<le> length base + j" using snoc.prems(3) by simp
      then show "fst (ps ! j) \<le> length base + j" using j by (simp add: nth_append)
    qed
  qed
  note IH = snoc.IH[OF pre]
  have len: "length ?R = ?L" using IH by simp
  have vals: "\<forall>y\<in>set ps. ?R ! fst y = snd y" using IH by simp
  have rest: "map ((!) ?R) (filter (\<lambda>p. p \<notin> ?D) [0..<?L]) = base" using IH by simp
  have below: "\<forall>e\<in>?D. e < d"
  proof
    fix e assume e: "e \<in> ?D"
    then have "e \<le> d" using snoc.prems(1) x by (auto simp add: sorted_append)
    moreover have "e \<noteq> d" using snoc.prems(2) x e by auto
    ultimately show "e < d" by simp
  qed
  have dL: "d \<le> ?L"
    using snoc.prems(3)[rule_format, of "length ps"] x by simp
  have dR: "d \<le> length ?R" using dL len by simp
  let ?R' = "py_insert ?R d s"
  have f: "foldl (\<lambda>perm (dest, s). py_insert perm dest s) base (ps @ [x]) = ?R'"
    by (simp add: x)
  have 1: "length ?R' = length base + length (ps @ [x])"
    using py_insert_nth(4)[OF dR] len by simp
  have 2: "\<forall>y\<in>set (ps @ [x]). ?R' ! fst y = snd y"
  proof
    fix y assume "y \<in> set (ps @ [x])"
    then consider "y \<in> set ps" | "y = x" by auto
    then show "?R' ! fst y = snd y"
    proof cases
      case 1
      then have "fst y < d" using below by simp
      then show ?thesis using py_insert_nth(2)[OF dR] vals 1 by simp
    next
      case 2
      then show ?thesis using py_insert_nth(1)[OF dR] x by simp
    qed
  qed
  have 3: "map ((!) ?R') (filter (\<lambda>p. p \<notin> fst ` set (ps @ [x])) [0..<length base + length (ps @ [x])]) = base"
  proof -
    have split: "[0..<Suc ?L] = [0..<d] @ [d] @ [Suc d..<Suc ?L]"
    proof -
      have "[0..<d + (Suc ?L - d)] = [0..<d] @ [d..<d + (Suc ?L - d)]"
        by (rule upt_add_eq_append) simp
      moreover have "d + (Suc ?L - d) = Suc ?L" using dL by simp
      ultimately have "[0..<Suc ?L] = [0..<d] @ [d..<Suc ?L]" by (simp only:)
      moreover have "[d..<Suc ?L] = d # [Suc d..<Suc ?L]"
        using dL by (intro upt_conv_Cons) simp
      ultimately show ?thesis by simp
    qed
    have D': "fst ` set (ps @ [x]) = insert d ?D" using x by simp
    have a: "filter (\<lambda>p. p \<notin> insert d ?D) [0..<d] = filter (\<lambda>p. p \<notin> ?D) [0..<d]"
      by (rule filter_cong) auto
    have b: "filter (\<lambda>p. p \<notin> insert d ?D) [Suc d..<Suc ?L] = [Suc d..<Suc ?L]"
      using below by (auto simp add: filter_id_conv)
    have c: "map ((!) ?R') (filter (\<lambda>p. p \<notin> ?D) [0..<d]) = map ((!) ?R) (filter (\<lambda>p. p \<notin> ?D) [0..<d])"
      using py_insert_nth(2)[OF dR] by (intro map_cong refl) simp
    have e: "map ((!) ?R') [Suc d..<Suc ?L] = map ((!) ?R) [d..<?L]"
    proof -
      have "map ((!) ?R') [Suc d..<Suc ?L] = map (\<lambda>p. ?R' ! Suc p) [d..<?L]"
        by (simp only: map_Suc_upt[symmetric] map_map comp_def)
      also have "\<dots> = map ((!) ?R) [d..<?L]"
        using py_insert_nth(3)[OF dR] len by (intro map_cong refl) simp
      finally show ?thesis .
    qed
    have g: "filter (\<lambda>p. p \<notin> ?D) [0..<?L] = filter (\<lambda>p. p \<notin> ?D) [0..<d] @ [d..<?L]"
    proof -
      have "[0..<d + (?L - d)] = [0..<d] @ [d..<d + (?L - d)]"
        by (rule upt_add_eq_append) simp
      moreover have "d + (?L - d) = ?L" using dL by simp
      ultimately have "[0..<?L] = [0..<d] @ [d..<?L]" by (simp only:)
      moreover have "filter (\<lambda>p. p \<notin> ?D) [d..<?L] = [d..<?L]"
        using below by (auto simp add: filter_id_conv)
      ultimately show ?thesis by (metis filter_append)
    qed
    have "map ((!) ?R') (filter (\<lambda>p. p \<notin> insert d ?D) [0..<Suc ?L])
            = map ((!) ?R) (filter (\<lambda>p. p \<notin> ?D) [0..<d]) @ map ((!) ?R) [d..<?L]"
      unfolding split by (simp only: filter_append map_append a b c e) simp
    also have "\<dots> = map ((!) ?R) (filter (\<lambda>p. p \<notin> ?D) [0..<?L])"
      by (simp only: g map_append)
    also have "\<dots> = base" by (rule rest)
    finally show ?thesis by (simp only: D') simp
  qed
  show ?case unfolding f using 1 2 3 by blast
qed

lemma mset_py_insert: "mset (py_insert R d s) = add_mset s (mset R)"
proof -
  have "mset (take d R @ drop d R) = mset R" by (simp only: append_take_drop_id)
  then have "mset (take d R) + mset (drop d R) = mset R" by (simp only: mset_append)
  then show ?thesis by (simp add: py_insert_def)
qed

lemma mset_insert_all:
  "mset (foldl (\<lambda>perm (dest, s). py_insert perm dest s) base ps) = mset base + mset (map snd ps)"
  by (induction ps rule: rev_induct) (auto simp add: mset_py_insert)

lemma index_of_nth:
  "distinct xs \<Longrightarrow> p < length xs \<Longrightarrow> index_of xs (xs ! p) = p"
proof (induction xs arbitrary: p)
  case Nil
  then show ?case by simp
next
  case (Cons x xs)
  show ?case
  proof (cases p)
    case 0
    then show ?thesis by simp
  next
    case (Suc p')
    then have "xs ! p' \<in> set xs" using Cons.prems by simp
    then have "xs ! p' \<noteq> x" using Cons.prems by auto
    then show ?thesis using Suc Cons by simp
  qed
qed

lemma sorted_fst_of_sorted_pairs:
  fixes ps :: "(nat \<times> nat) list"
  assumes "sorted ps"
  shows "sorted (map fst ps)"
proof -
  have "sorted_wrt (\<lambda>x y. fst x \<le> fst y) ps"
    using assms by (rule sorted_wrt_mono_rel[rotated]) (auto simp add: less_eq_prod_def)
  then show ?thesis by (simp add: sorted_map)
qed

lemma strictly_increasing_gap:
  fixes ds :: "nat list"
  assumes "sorted ds" and "distinct ds" and "j \<le> j'" and "j' < length ds"
  shows "ds ! j + (j' - j) \<le> ds ! j'"
  using assms(3,4)
proof (induction j' rule: nat_induct)
  case 0
  then show ?case by simp
next
  case (Suc m)
  show ?case
  proof (cases "j = Suc m")
    case True
    then show ?thesis by simp
  next
    case False
    then have jm: "j \<le> m" using Suc.prems by simp
    have "ds ! m \<le> ds ! Suc m"
      using assms(1) Suc.prems by (simp add: sorted_iff_nth_mono)
    moreover have "ds ! m \<noteq> ds ! Suc m"
      using assms(2) Suc.prems by (simp add: nth_eq_iff_index_eq)
    ultimately have "ds ! m < ds ! Suc m" by simp
    moreover have "ds ! j + (m - j) \<le> ds ! m" using Suc.IH jm Suc.prems by simp
    ultimately show ?thesis using jm by simp
  qed
qed


lemma distinct_bounded_length:
  assumes "distinct qs" and "\<forall>q\<in>set qs. q < (n::nat)"
  shows "length qs \<le> n"
proof -
  have "card (set qs) \<le> card {..<n}"
    using assms(2) by (intro card_mono) auto
  then show ?thesis using assms(1) by (simp add: distinct_card)
qed

lemma moveaxis_perm:
  assumes "distinct qs" and "\<forall>q\<in>set qs. q < n" and "length qs = k"
    and "P = foldl (\<lambda>perm (dest, s). py_insert perm dest s) [k..<n] (sort (zip qs [0..<k]))"
  shows "length P = n" and "mset P = mset [0..<n]"
    and "\<forall>j<k. P ! (qs ! j) = j" and "map ((!) P) (free_axes n qs) = [k..<n]"
proof -
  let ?ps = "sort (zip qs [0..<k])"
  have kn: "k \<le> n" using distinct_bounded_length[OF assms(1,2)] assms(3) by simp
  have lps: "length ?ps = k" using assms(3) by simp
  have "mset (map fst ?ps) = mset (map fst (zip qs [0..<k]))" by simp
  then have mfst: "mset (map fst ?ps) = mset qs" using assms(3) by simp
  have "mset (map snd ?ps) = mset (map snd (zip qs [0..<k]))" by simp
  then have msnd: "mset (map snd ?ps) = mset [0..<k]" using assms(3) by simp
  have dfst: "distinct (map fst ?ps)"
    using mfst assms(1) mset_eq_imp_distinct_iff by blast
  have sfst: "set (map fst ?ps) = set qs" using mfst mset_eq_setD by blast
  have sorted_fst: "sorted (map fst ?ps)"
    by (rule sorted_fst_of_sorted_pairs) simp
  have bound: "\<forall>j<length ?ps. fst (?ps ! j) \<le> length [k..<n] + j"
  proof (intro allI impI)
    fix j assume j: "j < length ?ps"
    then have jk: "j < k" using lps by simp
    let ?ds = "map fst ?ps"
    have "?ds ! j + (k - 1 - j) \<le> ?ds ! (k - 1)"
      using jk lps by (intro strictly_increasing_gap[OF sorted_fst dfst]) simp_all
    moreover have "?ds ! (k - 1) \<in> set qs"
      using sfst jk lps by (metis diff_less length_map less_nat_zero_code not_gr_zero nth_mem zero_less_one)
    ultimately have "?ds ! j + (k - 1 - j) < n" using assms(2) by fastforce
    then have "?ds ! j \<le> n - k + j" using jk kn by simp
    then show "fst (?ps ! j) \<le> length [k..<n] + j" using j by simp
  qed
  note ins = insert_at_sorted_positions[OF sorted_fst dfst bound, folded assms(4)]
  show "length P = n" using ins kn lps by simp
  show "mset P = mset [0..<n]"
  proof -
    have "mset P = mset [k..<n] + mset [0..<k]"
      unfolding assms(4) by (simp only: mset_insert_all msnd)
    also have "\<dots> = mset ([0..<k] @ [k..<n])" by simp
    also have "[0..<k] @ [k..<n] = [0..<n]"
      using kn by (metis le_add_diff_inverse upt_add_eq_append zero_le)
    finally show ?thesis .
  qed
  show "\<forall>j<k. P ! (qs ! j) = j"
  proof (intro allI impI)
    fix j assume j: "j < k"
    have "(qs ! j, j) \<in> set (zip qs [0..<k])"
      using j assms(3) by (auto simp add: set_zip)
    then have "(qs ! j, j) \<in> set ?ps" by simp
    then show "P ! (qs ! j) = j" using ins by fastforce
  qed
  show "map ((!) P) (free_axes n qs) = [k..<n]"
  proof -
    have "fst ` set ?ps = set qs" using sfst by simp
    moreover have "length [k..<n] + length ?ps = n" using kn lps by simp
    ultimately show ?thesis using ins by (simp add: free_axes_def)
  qed
qed

lemma length_free_axes:
  assumes "distinct qs" and "\<forall>q\<in>set qs. q < n"
  shows "length (free_axes n qs) = n - length qs"
proof -
  have "length (filter (\<lambda>p. p \<in> set qs) [0..<n]) = card ({p. p \<in> set qs} \<inter> set [0..<n])"
    by (rule distinct_length_filter) simp
  also have "{p. p \<in> set qs} \<inter> set [0..<n] = set qs" using assms(2) by auto
  also have "card (set qs) = length qs" using assms(1) by (rule distinct_card)
  finally have "length (filter (\<lambda>p. p \<in> set qs) [0..<n]) = length qs" .
  moreover have "length (filter (\<lambda>p. p \<in> set qs) [0..<n])
                  + length (filter (\<lambda>p. \<not> p \<in> set qs) [0..<n]) = length [0..<n]"
    by (rule sum_length_filter_compl)
  ultimately show ?thesis by (simp add: free_axes_def)
qed

lemma free_axes_bound: "p \<in> set (free_axes n qs) \<Longrightarrow> p < n"
  by (simp add: free_axes_def)

lemma moved_index:
  assumes "distinct qs" and "\<forall>q\<in>set qs. q < n" and "length qs = k"
    and "P = foldl (\<lambda>perm (dest, s). py_insert perm dest s) [k..<n] (sort (zip qs [0..<k]))"
  shows "map (\<lambda>m. i ! index_of P m) [0..<n] = map ((!) i) qs @ map ((!) i) (free_axes n qs)"
proof (rule nth_equalityI)
  note perm = moveaxis_perm[OF assms]
  have kn: "k \<le> n" using distinct_bounded_length[OF assms(1,2)] assms(3) by simp
  have lf: "length (free_axes n qs) = n - k"
    using length_free_axes[OF assms(1,2)] assms(3) by simp
  show "length (map (\<lambda>m. i ! index_of P m) [0..<n])
          = length (map ((!) i) qs @ map ((!) i) (free_axes n qs))"
    using kn lf assms(3) by simp
  have dP: "distinct P"
    using perm(2) mset_eq_imp_distinct_iff[of P "[0..<n]"] by simp
  fix m assume "m < length (map (\<lambda>m. i ! index_of P m) [0..<n])"
  then have m: "m < n" by simp
  show "map (\<lambda>m. i ! index_of P m) [0..<n] ! m
          = (map ((!) i) qs @ map ((!) i) (free_axes n qs)) ! m"
  proof (cases "m < k")
    case True
    have "qs ! m < n" using True assms(2,3) by simp
    then have "index_of P (P ! (qs ! m)) = qs ! m"
      using dP perm(1) by (intro index_of_nth) simp_all
    then have "index_of P m = qs ! m" using perm(3) True by simp
    then show ?thesis using m True assms(3) by (simp add: nth_append)
  next
    case False
    let ?f = "free_axes n qs"
    have a: "m - k < length ?f" using m False lf by simp
    then have fb: "?f ! (m - k) < n" using free_axes_bound[of "?f ! (m - k)" n qs] by simp
    have "map ((!) P) ?f ! (m - k) = [k..<n] ! (m - k)" by (simp only: perm(4))
    then have "P ! (?f ! (m - k)) = m" using a m False by simp
    moreover have "index_of P (P ! (?f ! (m - k))) = ?f ! (m - k)"
      using dP perm(1) fb by (intro index_of_nth) simp_all
    ultimately have "index_of P m = ?f ! (m - k)" by simp
    then show ?thesis using m False a assms(3) by (simp add: nth_append)
  qed
qed

lemma sort_perm:
  assumes "mset P = mset [0..<n]"
  shows "sort P = [0..<n]"
  using assms by (intro properties_for_sort) simp_all


lemma map_nth_replicate:
  "\<forall>p\<in>set xs. p < m \<Longrightarrow> map ((!) (replicate m v)) xs = replicate (length xs) v"
  by (induction xs) simp_all

lemma gate_contraction:
  assumes "shape G = replicate (2 * k) 2" and "shape st = replicate n 2"
    and "distinct qs" and "\<forall>q\<in>set qs. q < n" and "length qs = k"
  shows "tensordot G st (map (\<lambda>j. - int k + int j) [0..<k]) (map int qs)
     = Inr (build (replicate n 2)
         (\<lambda>idx. sum_list (map
            (\<lambda>c. nd_at G (operand_index (2 * k) [k..<2 * k] c (take k idx))
                 * nd_at st (operand_index n qs c (drop k idx)))
            (indices (replicate k 2)))))"
proof -
  have kn: "k \<le> n" using distinct_bounded_length[OF assms(3,4)] assms(5) by simp
  have nG: "ndim G = 2 * k" and nS: "ndim st = n" using assms(1,2) by (simp_all add: ndim_def)
  have ca: "emap (canonicalize_axis (2 * k)) (map (\<lambda>j. - int k + int j) [0..<k]) = Inr [k..<2 * k]"
    using canonicalize_last[of k "2 * k"] by simp
  have cb: "emap (canonicalize_axis n) (map int qs) = Inr qs"
    using assms(4) by (rule canonicalize_nonneg)
  have la: "length (map (\<lambda>j. - int k + int j) [0..<k]) = length (map int qs)"
    using assms(5) by simp
  have sa: "map ((!) (replicate (2 * k) (2::nat))) [k..<2 * k] = replicate k 2"
    using map_nth_replicate[of "[k..<2 * k]" "2 * k" 2] by simp
  have sb: "map ((!) (replicate n (2::nat))) qs = replicate k 2"
    using map_nth_replicate[of qs n 2] assms(4,5) by simp
  have sfa: "map ((!) (replicate (2 * k) (2::nat))) [0..<k] = replicate k 2"
    using map_nth_replicate[of "[0..<k]" "2 * k" 2] by simp
  have sfb: "map ((!) (replicate n (2::nat))) (free_axes n qs) = replicate (n - k) 2"
    using map_nth_replicate[of "free_axes n qs" n 2] free_axes_bound[of _ n qs]
      length_free_axes[OF assms(3,4)] assms(5) by simp
  have shp: "replicate k (2::nat) @ replicate (n - k) 2 = replicate n 2"
    using kn by (simp add: replicate_add[symmetric])
  show ?thesis
    unfolding tensordot_def nG nS
    by (simp only: la ca cb ebind_def sum.case Let_def assms(1,2) sa sb sfa sfb shp
        free_axes_last length_upt diff_zero distinct_upt assms(3) simp_thms if_True if_False)
qed


lemma upt_split: "k \<le> n \<Longrightarrow> [0..<n] = [0..<k] @ [k..<n]"
  by (metis le_add_diff_inverse upt_add_eq_append zero_le)

lemma filter_not_first: "k \<le> n \<Longrightarrow> filter (\<lambda>i. i \<notin> set [0..<k]) [0..<n] = [k..<n]"
proof -
  assume kn: "k \<le> n"
  have "filter (\<lambda>i. i \<notin> set [0..<k]) [0..<k] = []" by simp
  moreover have "filter (\<lambda>i. i \<notin> set [0..<k]) [k..<n] = [k..<n]"
    by (simp add: filter_id_conv)
  ultimately show ?thesis using upt_split[OF kn] by (metis append_Nil filter_append)
qed

lemma valid_binary_index:
  "list_all2 (<) i (replicate n (2::nat)) \<longleftrightarrow> length i = n \<and> (\<forall>b\<in>set i. b < 2)"
  by (auto simp add: list_all2_conv_all_nth all_set_conv_all_nth)

lemma moveaxis_back:
  assumes "shape new = replicate n 2"
    and "distinct qs" and "\<forall>q\<in>set qs. q < n" and "length qs = k"
  shows "moveaxis new (map int [0..<k]) (map int qs)
     = Inr (build (replicate n 2)
         (\<lambda>idx. nd_at new (map ((!) idx) qs @ map ((!) idx) (free_axes n qs))))"
proof -
  have kn: "k \<le> n" using distinct_bounded_length[OF assms(2,3)] assms(4) by simp
  have nn: "ndim new = n" using assms(1) by (simp add: ndim_def)
  have src: "emap (canonicalize_axis n) (map int [0..<k]) = Inr [0..<k]"
    using kn by (intro canonicalize_nonneg) simp
  have dst: "emap (canonicalize_axis n) (map int qs) = Inr qs"
    using assms(3) by (rule canonicalize_nonneg)
  define P where "P = foldl (\<lambda>perm (dest, s). py_insert perm dest s) [k..<n] (sort (zip qs [0..<k]))"
  note perm = moveaxis_perm[OF assms(2,3,4) P_def]
  have sP: "sort P = [0..<n]" using perm(2) by (rule sort_perm)
  have "set P = set [0..<n]" using perm(2) mset_eq_setD by blast
  then have "\<forall>p\<in>set P. p < n" by simp
  then have shP: "map ((!) (replicate n (2::nat))) P = replicate n 2"
    using map_nth_replicate[of P n 2] perm(1) by simp
  have mv: "(\<lambda>idx. nd_at new (map (\<lambda>m. idx ! index_of P m) [0..<n]))
          = (\<lambda>idx. nd_at new (map ((!) idx) qs @ map ((!) idx) (free_axes n qs)))"
    by (simp only: moved_index[OF assms(2,3,4) P_def])
  have tr: "transpose_nd new P = Inr (build (replicate n 2)
         (\<lambda>idx. nd_at new (map ((!) idx) qs @ map ((!) idx) (free_axes n qs))))"
    unfolding transpose_nd_def nn assms(1) shP mv using sP by simp
  have lk: "length [0..<k] = length qs" using assms(4) by simp
  show ?thesis
    unfolding moveaxis_def nn src dst ebind_def sum.case Let_def filter_not_first[OF kn]
    using tr lk by (simp add: P_def)
qed

lemma apply_gate_tensor_value:
  assumes "shape G = replicate (2 * k) 2" and "shape st = replicate n 2"
    and "distinct qs" and "\<forall>q\<in>set qs. q < n" and "length qs = k"
  shows "\<exists>T. apply_gate_tensor G (map int qs) st = Inr T \<and> shape T = replicate n 2
           \<and> (\<forall>i. length i = n \<and> (\<forall>b\<in>set i. b < 2) \<longrightarrow>
                nd_at T i = (\<Sum>c\<leftarrow>indices (replicate k 2).
                               nd_at G (map ((!) i) qs @ c) * nd_at st (replace_at i qs c)))"
proof -
  let ?f = "\<lambda>idx. sum_list (map
            (\<lambda>c. nd_at G (operand_index (2 * k) [k..<2 * k] c (take k idx))
                 * nd_at st (operand_index n qs c (drop k idx)))
            (indices (replicate k 2)))"
  let ?new = "build (replicate n 2) ?f"
  let ?mv = "\<lambda>idx. map ((!) idx) qs @ map ((!) idx) (free_axes n qs)"
  let ?T = "build (replicate n 2) (\<lambda>idx. nd_at ?new (?mv idx))"
  have kn: "k \<le> n" using distinct_bounded_length[OF assms(3,4)] assms(5) by simp
  have lf: "length (free_axes n qs) = n - k"
    using length_free_axes[OF assms(3,4)] assms(5) by simp
  have c1: "tensordot G st (map (\<lambda>j. - int k + int j) [0..<k]) (map int qs) = Inr ?new"
    using assms by (rule gate_contraction)
  have c2: "moveaxis ?new (map int [0..<k]) (map int qs) = Inr ?T"
    using assms(3,4,5) by (intro moveaxis_back) (simp_all add: shape_build)
  have ap: "apply_gate_tensor G (map int qs) st = Inr ?T"
    unfolding apply_gate_tensor_def using c1 c2 assms(5) by (simp add: ebind_def)
  have el: "nd_at ?T i = (\<Sum>c\<leftarrow>indices (replicate k 2).
                               nd_at G (map ((!) i) qs @ c) * nd_at st (replace_at i qs c))"
    if i: "length i = n" "\<forall>b\<in>set i. b < 2" for i
  proof -
    have vi: "list_all2 (<) i (replicate n 2)" using i by (simp add: valid_binary_index)
    have "\<forall>b\<in>set (?mv i). b < 2"
      using i assms(4) free_axes_bound[of _ n qs] by auto
    moreover have "length (?mv i) = n" using lf kn assms(5) by simp
    ultimately have vm: "list_all2 (<) (?mv i) (replicate n 2)"
      by (simp only: valid_binary_index simp_thms)
    have tk: "take k (?mv i) = map ((!) i) qs" "drop k (?mv i) = map ((!) i) (free_axes n qs)"
      using assms(5) by simp_all
    have "nd_at ?T i = nd_at ?new (?mv i)" using vi by (rule nd_at_build)
    also have "\<dots> = ?f (?mv i)" using vm by (rule nd_at_build)
    also have "\<dots> = (\<Sum>c\<leftarrow>indices (replicate k 2).
                 nd_at G (operand_index (2 * k) [k..<2 * k] c (map ((!) i) qs))
                   * nd_at st (operand_index n qs c (map ((!) i) (free_axes n qs))))"
      by (simp only: tk)
    also have "\<dots> = (\<Sum>c\<leftarrow>indices (replicate k 2).
                 nd_at G (map ((!) i) qs @ c) * nd_at st (replace_at i qs c))"
    proof (rule arg_cong[where f = sum_list], rule map_cong[OF refl])
      fix c assume "c \<in> set (indices (replicate k 2))"
      then have lc: "length c = k" using indices_length by fastforce
      have "operand_index (2 * k) [k..<2 * k] c (map ((!) i) qs) = map ((!) i) qs @ c"
        using assms(5) lc by (intro operand_index_gate) simp_all
      moreover have "operand_index n qs c (map ((!) i) (free_axes n qs)) = replace_at i qs c"
        using assms(3,4,5) lc i(1) by (intro operand_index_state) simp_all
      ultimately show "nd_at G (operand_index (2 * k) [k..<2 * k] c (map ((!) i) qs))
                   * nd_at st (operand_index n qs c (map ((!) i) (free_axes n qs)))
                 = nd_at G (map ((!) i) qs @ c) * nd_at st (replace_at i qs c)"
        by (simp only:)
    qed
    finally show ?thesis .
  qed
  show ?thesis
    using ap el by (intro exI[of _ ?T]) (simp add: shape_build)
qed


lemma operand_index_full:
  assumes "length c = n"
  shows "operand_index n [0..<n] c [] = c"
proof -
  let ?m = "map_of (zip [0..<n] c)"
  have some: "?m p = Some (c ! p)" if "p < n" for p
  proof -
    have "?m ([0..<n] ! p) = Some (c ! p)"
      using that assms by (intro map_of_zip_nth) simp_all
    then show ?thesis using that by simp
  qed
  have "filter (\<lambda>p. ?m p = None) [0..<n] = []"
    using some by (simp add: filter_empty_conv)
  then have "operand_index n [0..<n] c []
          = merge_index [0..<n] ?m (map (\<lambda>p. 0) (filter (\<lambda>p. ?m p = None) [0..<n]))"
    by (simp add: operand_index_def)
  also have "\<dots> = map (\<lambda>p. case ?m p of Some v \<Rightarrow> v | None \<Rightarrow> 0) [0..<n]"
    by (rule merge_index_spec)
  also have "\<dots> = c"
  proof (rule nth_equalityI)
    show "length (map (\<lambda>p. case ?m p of Some v \<Rightarrow> v | None \<Rightarrow> 0) [0..<n]) = length c"
      using assms by simp
  next
    fix p assume "p < length (map (\<lambda>p. case ?m p of Some v \<Rightarrow> v | None \<Rightarrow> 0) [0..<n])"
    then have p: "p < n" by simp
    have "(case ?m p of Some v \<Rightarrow> v | None \<Rightarrow> 0) = c ! p"
      by (simp only: some[OF p] option.case)
    then show "map (\<lambda>p. case ?m p of Some v \<Rightarrow> v | None \<Rightarrow> 0) [0..<n] ! p = c ! p"
      using p by (simp only: nth_map length_upt diff_zero nth_upt add_0)
  qed
  finally show ?thesis .
qed

lemma nd_at_nd_map:
  assumes "list_all2 (<) i (shape a)" and "length (data a) = prod_list (shape a)"
  shows "nd_at (nd_map f a) i = f (nd_at a i)"
  using indices_ravel[OF assms(1)] assms(2) by (simp add: nd_at_def nd_map_def)

lemma full_contraction:
  assumes "shape st = replicate n 2" and "length (data st) = 2 ^ n" and "shape T = replicate n 2"
  shows "tensordot (nd_map cnj st) T (map int [0..<n]) (map int [0..<n])
           = Inr (scalar (\<Sum>i\<leftarrow>indices (replicate n 2). cnj (nd_at st i) * nd_at T i))"
proof -
  let ?A = "nd_map cnj st"
  have nA: "ndim ?A = n" "ndim T = n" "shape ?A = replicate n 2"
    using assms by (simp_all add: ndim_def nd_map_def)
  have cz: "emap (canonicalize_axis n) (map int [0..<n]) = Inr [0..<n]"
    by (intro canonicalize_nonneg) simp
  have fr: "free_axes n [0..<n] = []" by (simp add: free_axes_def)
  have sh: "map ((!) (replicate n (2::nat))) [0..<n] = replicate n 2"
    using map_nth_replicate[of "[0..<n]" n 2] by simp
  have wf: "length (data st) = prod_list (shape st)" using assms(1,2) by simp
  have td: "tensordot ?A T (map int [0..<n]) (map int [0..<n])
          = Inr (build [] (\<lambda>idx. sum_list (map
                    (\<lambda>c. nd_at ?A (operand_index n [0..<n] c (take 0 idx))
                         * nd_at T (operand_index n [0..<n] c (drop 0 idx)))
                    (indices (replicate n 2)))))"
    unfolding tensordot_def nA
    by (simp only: cz ebind_def sum.case Let_def assms(3) sh fr distinct_upt list.map append_Nil
        list.size simp_thms if_True if_False)
  have "(\<Sum>c\<leftarrow>indices (replicate n 2). nd_at ?A (operand_index n [0..<n] c (take 0 []))
                         * nd_at T (operand_index n [0..<n] c (drop 0 [])))
        = (\<Sum>i\<leftarrow>indices (replicate n 2). cnj (nd_at st i) * nd_at T i)"
  proof (rule arg_cong[where f = sum_list], rule map_cong[OF refl])
    fix c assume c: "c \<in> set (indices (replicate n 2))"
    then have lc: "length c = n" using indices_length by fastforce
    have vc: "list_all2 (<) c (shape st)" using indices_valid[OF c] assms(1) by simp
    have "operand_index n [0..<n] c [] = c" using lc by (rule operand_index_full)
    moreover have "nd_at ?A c = cnj (nd_at st c)" using vc wf by (rule nd_at_nd_map)
    ultimately show "nd_at ?A (operand_index n [0..<n] c (take 0 []))
                         * nd_at T (operand_index n [0..<n] c (drop 0 []))
                   = cnj (nd_at st c) * nd_at T c"
      by simp
  qed
  then show ?thesis
    unfolding td by (simp add: build_def scalar_def)
qed

text \<open>
  Claim C1. For a gate tensor \<open>G\<close> of rank \<open>2 * k\<close>, a duplicate-free list \<open>qs\<close> of \<open>k\<close>
  qubit indices and a statetensor of rank \<open>n\<close> above every index (all axes binary), the
  evaluator contracts the last \<open>k\<close> axes of \<open>G\<close> with the axes \<open>qs\<close> of the statetensor
  in the given order and moves the resulting front axes back to the positions \<open>qs\<close>:
  the transformed tensor \<open>T\<close> has the shape of the statetensor and its entry at \<open>i\<close> is
  the sum over \<open>c\<close> of \<open>G[i at qs, c] * statetensor[i with c at qs]\<close>. The result is the
  real part of the full conjugate inner product of the statetensor with \<open>T\<close>, a scalar.
\<close>

theorem single_expectation:
  assumes "shape G = replicate (2 * k) 2" and "length qs = k" and "distinct qs"
    and "\<forall>q\<in>set qs. q < n" and "shape st = replicate n 2" and "length (data st) = 2 ^ n"
  shows "\<exists>T. apply_gate_tensor G (map int qs) st = Inr T \<and> shape T = shape st
           \<and> (\<forall>i. length i = n \<and> (\<forall>b\<in>set i. b < 2) \<longrightarrow>
                nd_at T i = (\<Sum>c\<leftarrow>indices (replicate k 2).
                               nd_at G (map ((!) i) qs @ c) * nd_at st (replace_at i qs c)))
           \<and> statetensor_to_single_expectation G (map int qs) st
                = Inr (scalar (Re (\<Sum>i\<leftarrow>indices (replicate n 2). cnj (nd_at st i) * nd_at T i)))"
proof -
  from apply_gate_tensor_value[OF assms(1,5,3,4,2)]
  obtain T where ap: "apply_gate_tensor G (map int qs) st = Inr T"
    and sh: "shape T = replicate n 2"
    and el: "\<forall>i. length i = n \<and> (\<forall>b\<in>set i. b < 2) \<longrightarrow>
                nd_at T i = (\<Sum>c\<leftarrow>indices (replicate k 2).
                               nd_at G (map ((!) i) qs @ c) * nd_at st (replace_at i qs c))"
    by blast
  have nS: "ndim st = n" using assms(5) by (simp add: ndim_def)
  have "statetensor_to_single_expectation G (map int qs) st
          = Inr (scalar (Re (\<Sum>i\<leftarrow>indices (replicate n 2). cnj (nd_at st i) * nd_at T i)))"
    unfolding statetensor_to_single_expectation_def ap ebind_def sum.case Let_def nS
      full_contraction[OF assms(5,6) sh]
    by (simp add: nd_map_scalar)
  then show ?thesis using ap sh el assms(5) by (intro exI[of _ T]) simp
qed


theorem single_expectation_witness:
  "shape pauli_x = replicate (2 * 1) 2 \<and> length [1::nat] = 1 \<and> distinct [1::nat]
   \<and> list_all (\<lambda>q. q < 2) [1::nat] \<and> shape bell_state = replicate 2 2
   \<and> length (data bell_state) = 2 ^ 2
   \<and> (\<exists>T. apply_gate_tensor pauli_x (map int [1]) bell_state = Inr T
          \<and> shape T = shape bell_state
          \<and> statetensor_to_single_expectation pauli_x (map int [1]) bell_state
               = Inr (scalar (Re (\<Sum>i\<leftarrow>indices (replicate 2 2). cnj (nd_at bell_state i) * nd_at T i))))"
proof -
  have h1: "shape pauli_x = replicate (2 * 1) 2"
    by (simp add: pauli_x_def numeral_2_eq_2)
  have h2: "length [1::nat] = 1" by simp
  have h3: "distinct [1::nat]" by simp
  have h4: "\<forall>q\<in>set [1::nat]. q < 2" by simp
  have h5: "shape bell_state = replicate 2 2"
    by (simp add: bell_state_def numeral_2_eq_2)
  have h6: "length (data bell_state) = 2 ^ 2" by (simp add: bell_state_def)
  note T = single_expectation [OF h1 h2 h3 h4 h5 h6]
  have l: "list_all (\<lambda>q. q < 2) [1::nat]" by simp
  from T have "\<exists>T. apply_gate_tensor pauli_x (map int [1]) bell_state = Inr T
          \<and> shape T = shape bell_state
          \<and> statetensor_to_single_expectation pauli_x (map int [1]) bell_state
               = Inr (scalar (Re (\<Sum>i\<leftarrow>indices (replicate 2 2). cnj (nd_at bell_state i) * nd_at T i)))"
    by blast
  then show ?thesis using h1 h2 h3 l h5 h6 by (intro conjI)
qed

end
